theory Spec2Isabelle
  imports Main
begin

section \<open>FP-tree mining: the data model\<close>

text \<open>
  The program keeps items as Python strings (the tokens of a transaction line).  A
  transaction table is a \<^verbatim>\<open>dict\<close> from \<^verbatim>\<open>frozenset\<close> to \<^verbatim>\<open>int\<close>.  A dict iterates in
  insertion order, so it is an association list; a frozenset iterates in an order fixed
  by the hashes of its elements, so a key is the list of its elements in that iteration
  order.  Two keys are the same key when they have the same elements.

  Tree nodes are objects that point at each other (parent, children, node link), so
  they live in a store: the list \<open>nodes\<close>, in which the address of a node is its index
  and a new node is allocated at the end.  The root is the node at address 0.  A Python
  reference always denotes an object, so the functions read the store at an address
  without a check; the invariant \<open>wf_tree\<close> below, which holds of every tree that the
  constructor returns, keeps every address in the store.

  A function returns \<open>None\<close> where the program does not return, \<open>Some (Inl e)\<close> where
  it raises \<open>e\<close>, and \<open>Some (Inr v)\<close> where it returns \<open>v\<close>.
\<close>

datatype error = IndexError | KeyError

type_synonym 'a result = "(error + 'a) option"

type_synonym transactions = "(string list \<times> int) list"

record TreeNode =
  name :: string
  count :: int
  nodeLink :: "nat option"
  parent :: "nat option"
  children :: "(string \<times> nat) list"

record FPTree =
  headerTable :: "(string \<times> int \<times> nat option) list"
  nodes :: "TreeNode list"

subsection \<open>Python dict operations on association lists\<close>

text \<open>\<^verbatim>\<open>d[k] = v\<close>: an existing key keeps its place, a new key goes to the end.\<close>

fun dict_set :: "'k \<Rightarrow> 'v \<Rightarrow> ('k \<times> 'v) list \<Rightarrow> ('k \<times> 'v) list" where
  "dict_set k v [] = [(k, v)]"
| "dict_set k v ((k', v') # d) =
     (if k' = k then (k', v) # d else (k', v') # dict_set k v d)"

text \<open>\<^verbatim>\<open>d.get(k, default)\<close>.\<close>

definition dict_get :: "('k \<times> 'v) list \<Rightarrow> 'k \<Rightarrow> 'v \<Rightarrow> 'v" where
  "dict_get d k dflt = (case map_of d k of None \<Rightarrow> dflt | Some v \<Rightarrow> v)"

text \<open>\<^verbatim>\<open>d[fs] = v\<close> for a dict keyed by frozensets: keys are compared as sets, and the key
  object already in the dict is kept.\<close>

fun fdict_set :: "'a list \<Rightarrow> 'v \<Rightarrow> ('a list \<times> 'v) list \<Rightarrow> ('a list \<times> 'v) list" where
  "fdict_set k v [] = [(k, v)]"
| "fdict_set k v ((k', v') # d) =
     (if set k' = set k then (k', v) # d else (k', v') # fdict_set k v d)"

section \<open>Tree construction\<close>

text \<open>\<^verbatim>\<open>TreeNode('Null', 1, None)\<close> and \<^verbatim>\<open>TreeNode(item, count, inNode)\<close>.\<close>

definition TreeNode_init :: "string \<Rightarrow> int \<Rightarrow> nat option \<Rightarrow> TreeNode" where
  "TreeNode_init nm cnt parentNode =
     \<lparr>name = nm, count = cnt, nodeLink = None, parent = parentNode, children = []\<rparr>"

definition inc :: "TreeNode \<Rightarrow> int \<Rightarrow> TreeNode" where
  "inc node cnt = node\<lparr>count := count node + cnt\<rparr>"

text \<open>\<^verbatim>\<open>updateHeader\<close>: the while loop runs down the node links; on a cyclic chain it
  does not return, which is the value \<open>None\<close>.\<close>

partial_function (option) updateHeader :: "TreeNode list \<Rightarrow> nat \<Rightarrow> nat \<Rightarrow> TreeNode list option" where
  "updateHeader ns nodeToTest targetNode =
     (case nodeLink (ns ! nodeToTest) of
        Some nxt \<Rightarrow> updateHeader ns nxt targetNode
      | None \<Rightarrow> Some (ns[nodeToTest := (ns ! nodeToTest)\<lparr>nodeLink := Some targetNode\<rparr>]))"

declare updateHeader.simps [code]

text \<open>The first half of \<^verbatim>\<open>updateTree\<close> (source lines 94 to 104): find or create the
  child of \<open>inNode\<close> for the item, and return its address with the new tree.\<close>

definition insertChild :: "string \<Rightarrow> nat \<Rightarrow> int \<Rightarrow> FPTree \<Rightarrow> (nat \<times> FPTree) result" where
  "insertChild item inNode cnt t =
     (case map_of (children (nodes t ! inNode)) item of
        Some c \<Rightarrow> Some (Inr (c, t\<lparr>nodes := (nodes t)[c := inc (nodes t ! c) cnt]\<rparr>))
      | None \<Rightarrow>
          (let c = length (nodes t);
               ns1 = (nodes t)[inNode := (nodes t ! inNode)
                         \<lparr>children := dict_set item c (children (nodes t ! inNode))\<rparr>]
                     @ [TreeNode_init item cnt (Some inNode)]
           in case map_of (headerTable t) item of
                None \<Rightarrow> Some (Inl KeyError)
              | Some (hc, None) \<Rightarrow>
                  Some (Inr (c, \<lparr>headerTable = dict_set item (hc, Some c) (headerTable t),
                                 nodes = ns1\<rparr>))
              | Some (hc, Some h) \<Rightarrow>
                  (case updateHeader ns1 h c of
                     None \<Rightarrow> None
                   | Some ns2 \<Rightarrow> Some (Inr (c, t\<lparr>nodes := ns2\<rparr>)))))"

text \<open>\<^verbatim>\<open>updateTree\<close>: \<^verbatim>\<open>items[0]\<close> raises IndexError on an empty list.\<close>

fun updateTree :: "string list \<Rightarrow> nat \<Rightarrow> int \<Rightarrow> FPTree \<Rightarrow> FPTree result" where
  "updateTree [] inNode cnt t = Some (Inl IndexError)"
| "updateTree (item # rest) inNode cnt t =
     (case insertChild item inNode cnt t of
        None \<Rightarrow> None
      | Some (Inl e) \<Rightarrow> Some (Inl e)
      | Some (Inr (c, t')) \<Rightarrow>
          if length (item # rest) > 1 then updateTree rest c cnt t' else Some (Inr t'))"

text \<open>The counting pass of \<^verbatim>\<open>__init__\<close> (source lines 58 to 60).\<close>

definition addCount :: "int \<Rightarrow> string \<Rightarrow> (string \<times> int) list \<Rightarrow> (string \<times> int) list" where
  "addCount cnt item h = dict_set item (dict_get h item 0 + cnt) h"

definition countItems :: "transactions \<Rightarrow> (string \<times> int) list" where
  "countItems ts = fold (\<lambda>(tr, cnt) h. fold (addCount cnt) tr h) ts []"

text \<open>\<^verbatim>\<open>localD\<close> (source lines 73 to 77).  The header table has the keys of
  \<^verbatim>\<open>freqItemSet\<close> throughout the construction, so the membership test and the lookup
  \<^verbatim>\<open>self.headerTable[item][0]\<close> are one lookup.\<close>

definition localD_of :: "(string \<times> int \<times> nat option) list \<Rightarrow> string list \<Rightarrow> (string \<times> int) list" where
  "localD_of hdr tr =
     fold (\<lambda>item d. case map_of hdr item of Some (c, l) \<Rightarrow> dict_set item c d | None \<Rightarrow> d) tr []"

text \<open>\<^verbatim>\<open>sorted(localD.items(), key=lambda p: p[1], reverse=True)\<close>: Python's sort is
  stable, also when reversed, so items of equal count keep their order in \<open>localD\<close>.\<close>

definition orderedItems_of :: "(string \<times> int) list \<Rightarrow> string list" where
  "orderedItems_of localD = map fst (sort_key (\<lambda>p. - snd p) localD)"

fun buildLoop :: "transactions \<Rightarrow> FPTree \<Rightarrow> FPTree result" where
  "buildLoop [] t = Some (Inr t)"
| "buildLoop ((tr, cnt) # rest) t =
     (let localD = localD_of (headerTable t) tr in
      if length localD > 0 then
        (case updateTree (orderedItems_of localD) 0 cnt t of
           None \<Rightarrow> None
         | Some (Inl e) \<Rightarrow> Some (Inl e)
         | Some (Inr t') \<Rightarrow> buildLoop rest t')
      else buildLoop rest t)"

definition FPTree_init :: "transactions \<Rightarrow> int \<Rightarrow> FPTree result" where
  "FPTree_init ts minSup =
     (let kept = filter (\<lambda>(k, v). \<not> v < minSup) (countItems ts) in
      if length kept = 0 then
        Some (Inr \<lparr>headerTable = [], nodes = [TreeNode_init ''Null'' 1 None]\<rparr>)
      else
        buildLoop ts \<lparr>headerTable = map (\<lambda>(k, v). (k, (v, None))) kept,
                      nodes = [TreeNode_init ''Null'' 1 None]\<rparr>)"

section \<open>Conditional pattern bases\<close>

partial_function (option) ascendTree :: "TreeNode list \<Rightarrow> nat \<Rightarrow> string list \<Rightarrow> string list option" where
  "ascendTree ns leafNode prefixPath =
     (case parent (ns ! leafNode) of
        None \<Rightarrow> Some prefixPath
      | Some p \<Rightarrow> ascendTree ns p (prefixPath @ [name (ns ! leafNode)]))"

declare ascendTree.simps [code]

text \<open>The while loop of \<^verbatim>\<open>findPrefixPath\<close>.  The parameter \<open>frozenset\<close> is the
  constructor \<^verbatim>\<open>frozenset(...)\<close>: it takes the elements in the order given and returns
  them in the iteration order of the new set.\<close>

partial_function (option) chainLoop ::
  "(string list \<Rightarrow> string list) \<Rightarrow> TreeNode list \<Rightarrow> nat option \<Rightarrow> transactions \<Rightarrow> transactions option" where
  "chainLoop frozenset ns treeNode condPats =
     (case treeNode of
        None \<Rightarrow> Some condPats
      | Some n \<Rightarrow>
          (case ascendTree ns n [] of
             None \<Rightarrow> None
           | Some prefixPath \<Rightarrow>
               chainLoop frozenset ns (nodeLink (ns ! n))
                 (if length prefixPath > 1
                  then fdict_set (frozenset (tl prefixPath)) (count (ns ! n)) condPats
                  else condPats)))"

declare chainLoop.simps [code]

definition findPrefixPath :: "(string list \<Rightarrow> string list) \<Rightarrow> FPTree \<Rightarrow> string \<Rightarrow> transactions result" where
  "findPrefixPath frozenset t basePat =
     (case map_of (headerTable t) basePat of
        None \<Rightarrow> Some (Inl KeyError)
      | Some (c, treeNode) \<Rightarrow>
          (case chainLoop frozenset (nodes t) treeNode [] of
             None \<Rightarrow> None
           | Some condPats \<Rightarrow> Some (Inr condPats)))"

section \<open>The mining driver\<close>

text \<open>\<^verbatim>\<open>sorted(self.headerTable.items(), key=lambda p: p[1][0])\<close>.\<close>

definition bigL_of :: "FPTree \<Rightarrow> string list" where
  "bigL_of t = map fst (sort_key (\<lambda>p. fst (snd p)) (headerTable t))"

text \<open>
  Python sets are mutable objects and \<^verbatim>\<open>freqItemList\<close> holds references to them, so the
  sets live in a store of their own: \<open>sets\<close>, with a set's address its index.  The
  prefix is an address, the accumulator a list of addresses.

  The second argument \<open>d\<close> is the recursion depth still allowed below the current call;
  where it is used up, the result is \<open>None\<close>.  \<^verbatim>\<open>preFix.copy()\<close> allocates a new set
  with the elements of the prefix, \<^verbatim>\<open>add\<close> changes that new set in place, and
  \<^verbatim>\<open>append\<close> stores its address.
\<close>

type_synonym mine_state = "string set list \<times> nat list"

fun mineLoop ::
  "(string list \<Rightarrow> string list) \<Rightarrow> nat \<Rightarrow> FPTree \<Rightarrow> int \<Rightarrow> nat \<Rightarrow> string list \<Rightarrow> mine_state
     \<Rightarrow> mine_state result" where
  "mineLoop frozenset d t minSup preFix [] st = Some (Inr st)"
| "mineLoop frozenset d t minSup preFix (basePat # rest) (sets, freqItemList) =
     (let newFreqSet = length sets;
          sets1 = sets @ [sets ! preFix];
          sets2 = sets1[newFreqSet := insert basePat (sets1 ! newFreqSet)];
          freqItemList1 = freqItemList @ [newFreqSet]
      in case findPrefixPath frozenset t basePat of
           None \<Rightarrow> None
         | Some (Inl e) \<Rightarrow> Some (Inl e)
         | Some (Inr condPattBases) \<Rightarrow>
            (case FPTree_init condPattBases minSup of
               None \<Rightarrow> None
             | Some (Inl e) \<Rightarrow> Some (Inl e)
             | Some (Inr myCondTree) \<Rightarrow>
                 if headerTable myCondTree \<noteq> [] then
                   (case d of
                      0 \<Rightarrow> None
                    | Suc d' \<Rightarrow>
                       (case mineLoop frozenset d' myCondTree minSup newFreqSet
                               (bigL_of myCondTree) (sets2, freqItemList1) of
                          None \<Rightarrow> None
                        | Some (Inl e) \<Rightarrow> Some (Inl e)
                        | Some (Inr st') \<Rightarrow> mineLoop frozenset d t minSup preFix rest st'))
                 else mineLoop frozenset d t minSup preFix rest (sets2, freqItemList1)))"

definition mineTree ::
  "(string list \<Rightarrow> string list) \<Rightarrow> nat \<Rightarrow> FPTree \<Rightarrow> int \<Rightarrow> nat \<Rightarrow> mine_state \<Rightarrow> mine_state result" where
  "mineTree frozenset d t minSup preFix st = mineLoop frozenset d t minSup preFix (bigL_of t) st"

section \<open>The entry point and the specification's vocabulary\<close>

text \<open>The items that occur in a transaction table, the weighted support of an item set
  in it, and the item sets a brute-force enumeration would report.\<close>

definition vocab :: "transactions \<Rightarrow> string set" where
  "vocab ts = \<Union> (set ` fst ` set ts)"

definition support :: "transactions \<Rightarrow> string set \<Rightarrow> int" where
  "support ts S = sum_list (map snd (filter (\<lambda>(k, c). S \<subseteq> set k) ts))"

definition frequent :: "transactions \<Rightarrow> int \<Rightarrow> string set set" where
  "frequent ts minSup = {S. S \<noteq> {} \<and> S \<subseteq> vocab ts \<and> minSup \<le> support ts S}"

text \<open>The item sets the accumulator refers to, in the order of emission.\<close>

definition emitted :: "mine_state \<Rightarrow> string set list" where
  "emitted st = map (\<lambda>r. fst st ! r) (snd st)"

text \<open>\<^verbatim>\<open>main\<close>: build the tree, then mine it from the empty prefix and the empty
  accumulator.\<close>

definition mineAll ::
  "(string list \<Rightarrow> string list) \<Rightarrow> nat \<Rightarrow> transactions \<Rightarrow> int \<Rightarrow> string set list result" where
  "mineAll frozenset d ts minSup =
     (case FPTree_init ts minSup of
        None \<Rightarrow> None
      | Some (Inl e) \<Rightarrow> Some (Inl e)
      | Some (Inr myFPtree) \<Rightarrow>
          (case mineTree frozenset d myFPtree minSup 0 ([{}], []) of
             None \<Rightarrow> None
           | Some (Inl e) \<Rightarrow> Some (Inl e)
           | Some (Inr st) \<Rightarrow> Some (Inr (emitted st))))"

text \<open>Two tables that hold the same item sets with the same counts, in the same dict
  order; the iteration order inside a key may differ.\<close>

definition same_multiset :: "transactions \<Rightarrow> transactions \<Rightarrow> bool" where
  "same_multiset ts1 ts2 = (map (\<lambda>(k, c). (set k, c)) ts1 = map (\<lambda>(k, c). (set k, c)) ts2)"

section \<open>Invariants of the node store\<close>

text \<open>
  \<open>chained ns l L\<close>: following the node links from \<open>l\<close> passes the addresses of \<open>L\<close>, in
  that order, and then ends.  \<open>labelled ns x\<close>: the nodes other than the root that bear
  the item \<open>x\<close>, in the order of their creation, which is the order of their addresses.
  \<open>pathLabels ns i\<close>: the items on the way from node \<open>i\<close> up to the root, the root's own
  name left out.
\<close>

fun chained :: "TreeNode list \<Rightarrow> nat option \<Rightarrow> nat list \<Rightarrow> bool" where
  "chained ns l [] = (l = None)"
| "chained ns l (n # rest) = (l = Some n \<and> chained ns (nodeLink (ns ! n)) rest)"

definition labelled :: "TreeNode list \<Rightarrow> string \<Rightarrow> nat list" where
  "labelled ns x = filter (\<lambda>i. name (ns ! i) = x) [1..<length ns]"

function pathLabels :: "TreeNode list \<Rightarrow> nat \<Rightarrow> string list" where
  "pathLabels ns i =
     (case parent (ns ! i) of
        None \<Rightarrow> []
      | Some p \<Rightarrow> if p < i then name (ns ! i) # pathLabels ns p else [])"
  by pat_completeness auto
termination
  by (relation "measure snd") auto

declare pathLabels.simps [simp del]

definition parents_ok :: "TreeNode list \<Rightarrow> bool" where
  "parents_ok ns \<longleftrightarrow>
     ns \<noteq> [] \<and> parent (ns ! 0) = None \<and>
     (\<forall>i. 0 < i \<and> i < length ns \<longrightarrow> (\<exists>p. parent (ns ! i) = Some p \<and> p < i))"

definition children_ok :: "TreeNode list \<Rightarrow> bool" where
  "children_ok ns \<longleftrightarrow>
     (\<forall>p x c. p < length ns \<and> map_of (children (ns ! p)) x = Some c \<longrightarrow>
        c < length ns \<and> parent (ns ! c) = Some p \<and> name (ns ! c) = x)"

definition wf_tree :: "FPTree \<Rightarrow> bool" where
  "wf_tree t \<longleftrightarrow>
     parents_ok (nodes t) \<and> children_ok (nodes t) \<and>
     distinct (map fst (headerTable t)) \<and>
     (\<forall>i. 0 < i \<and> i < length (nodes t) \<longrightarrow> name (nodes t ! i) \<in> fst ` set (headerTable t)) \<and>
     (\<forall>x c l. map_of (headerTable t) x = Some (c, l) \<longrightarrow> chained (nodes t) l (labelled (nodes t) x)) \<and>
     (\<forall>i < length (nodes t). distinct (pathLabels (nodes t) i))"

text \<open>The walk of the while loop in \<^verbatim>\<open>findPrefixPath\<close>, recording the addresses
  it visits.\<close>

partial_function (option) followChain :: "TreeNode list \<Rightarrow> nat option \<Rightarrow> nat list \<Rightarrow> nat list option" where
  "followChain ns treeNode visited =
     (case treeNode of
        None \<Rightarrow> Some visited
      | Some n \<Rightarrow> followChain ns (nodeLink (ns ! n)) (visited @ [n]))"

declare followChain.simps [code]

definition itemSupport :: "transactions \<Rightarrow> string \<Rightarrow> int" where
  "itemSupport ts x = sum_list (map snd (filter (\<lambda>(k, c). x \<in> set k) ts))"

text \<open>One step of the loop of \<^verbatim>\<open>findPrefixPath\<close> at a node whose ascent is known.\<close>

definition cpbStep :: "(string list \<Rightarrow> string list) \<Rightarrow> TreeNode list \<Rightarrow> nat \<Rightarrow> transactions \<Rightarrow> transactions" where
  "cpbStep frozenset ns n condPats =
     (if length (pathLabels ns n) > 1
      then fdict_set (frozenset (tl (pathLabels ns n))) (count (ns ! n)) condPats
      else condPats)"

text \<open>The parent references as a relation, and the items of the proper ancestors of a
  node, the root (the node without a parent) left out.\<close>

definition parentRel :: "TreeNode list \<Rightarrow> (nat \<times> nat) set" where
  "parentRel ns = {(i, p). parent (ns ! i) = Some p}"

definition ancestorLabels :: "TreeNode list \<Rightarrow> nat \<Rightarrow> string set" where
  "ancestorLabels ns n = {name (ns ! j) | j. (n, j) \<in> (parentRel ns)\<^sup>+ \<and> parent (ns ! j) \<noteq> None}"

text \<open>
  What a run of the driver from prefix \<open>preFix\<close> may do to the store of sets and to the
  accumulator: every set that was there is as it was, the store has only grown, the
  accumulator has got the addresses of the new sets and nothing else, in the order of
  their allocation, and every new set is a set that was made before it, or the prefix,
  with one item inserted.
\<close>

definition only_appends :: "nat \<Rightarrow> string set list \<Rightarrow> nat list \<Rightarrow> string set list \<Rightarrow> nat list \<Rightarrow> bool" where
  "only_appends preFix sets acc sets' acc' \<longleftrightarrow>
     take (length sets) sets' = sets \<and> length sets \<le> length sets' \<and>
     acc' = acc @ [length sets..<length sets'] \<and>
     (\<forall>r. length sets \<le> r \<and> r < length sets' \<longrightarrow>
        (\<exists>b p. p < r \<and> (p = preFix \<or> length sets \<le> p) \<and> sets' ! r = insert b (sets' ! p)))"

text \<open>The count a header table holds for an item.\<close>

definition headerCount :: "(string \<times> int \<times> nat option) list \<Rightarrow> string \<Rightarrow> int" where
  "headerCount hdr x = (case map_of hdr x of Some (c, l) \<Rightarrow> c | None \<Rightarrow> 0)"

section \<open>Properties\<close>

subsection \<open>Evaluations at concrete inputs\<close>

lemma mineAll_flipped_pair: "mineAll (\<lambda>xs. xs) 2 [([''8'', ''1''], 1), ([''1'', ''8'', ''9''], 1)] 2
     = Some (Inr [{''8''}, {''1''}])"
  by code_simp

lemma pair_is_frequent: "{''1'', ''8''} \<in> frequent [([''8'', ''1''], 1), ([''1'', ''8'', ''9''], 1)] 2"
  by (simp add: frequent_def vocab_def support_def)

text \<open>
  C1 (completeness of mining).  The two transactions hold the items 1 and 8 in different
  iteration orders; both items have count 2, so the stable sort leaves them in the
  order of each transaction and the tree gets the two branches 8-1 and 1-8.  The pair
  of 1 and 8 has support 2 and is not emitted.
\<close>

theorem mining_misses_frequent_pair:
  "mineAll (\<lambda>xs. xs) 2 [([''8'', ''1''], 1), ([''1'', ''8'', ''9''], 1)] 2
     = Some (Inr [{''8''}, {''1''}])
   \<and> set [{''8''}, {''1''}] \<noteq> frequent [([''8'', ''1''], 1), ([''1'', ''8'', ''9''], 1)] 2"
proof -
  have "{''1'', ''8''} \<notin> set [{''8''}, {''1''}]" by auto
  with pair_is_frequent mineAll_flipped_pair show ?thesis by metis
qed

text \<open>
  C2 (weights of a recurring ancestor set).  The chain of item 10 has two nodes, each of
  count 1, and both have the ancestor set of 1 and 8; \<^verbatim>\<open>findPrefixPath\<close> assigns the
  count of the later node to the key and returns weight 1, where the sum is 2.
\<close>

theorem findPrefixPath_replaces_weight:
  "FPTree_init [([''8'', ''1'', ''10''], 1), ([''1'', ''8'', ''10'', ''12'', ''11''], 1)] 2 = Some (Inr
     \<lparr>headerTable = [(''8'', 2, Some 1), (''1'', 2, Some 2), (''10'', 2, Some 3)],
      nodes =
       [\<lparr>name = ''Null'', count = 1, nodeLink = None, parent = None, children = [(''8'', 1), (''1'', 4)]\<rparr>,
        \<lparr>name = ''8'', count = 1, nodeLink = Some 5, parent = Some 0, children = [(''1'', 2)]\<rparr>,
        \<lparr>name = ''1'', count = 1, nodeLink = Some 4, parent = Some 1, children = [(''10'', 3)]\<rparr>,
        \<lparr>name = ''10'', count = 1, nodeLink = Some 6, parent = Some 2, children = []\<rparr>,
        \<lparr>name = ''1'', count = 1, nodeLink = None, parent = Some 0, children = [(''8'', 5)]\<rparr>,
        \<lparr>name = ''8'', count = 1, nodeLink = None, parent = Some 4, children = [(''10'', 6)]\<rparr>,
        \<lparr>name = ''10'', count = 1, nodeLink = None, parent = Some 5, children = []\<rparr>]\<rparr>)
   \<and> findPrefixPath (\<lambda>xs. xs)
     \<lparr>headerTable = [(''8'', 2, Some 1), (''1'', 2, Some 2), (''10'', 2, Some 3)],
      nodes =
       [\<lparr>name = ''Null'', count = 1, nodeLink = None, parent = None, children = [(''8'', 1), (''1'', 4)]\<rparr>,
        \<lparr>name = ''8'', count = 1, nodeLink = Some 5, parent = Some 0, children = [(''1'', 2)]\<rparr>,
        \<lparr>name = ''1'', count = 1, nodeLink = Some 4, parent = Some 1, children = [(''10'', 3)]\<rparr>,
        \<lparr>name = ''10'', count = 1, nodeLink = Some 6, parent = Some 2, children = []\<rparr>,
        \<lparr>name = ''1'', count = 1, nodeLink = None, parent = Some 0, children = [(''8'', 5)]\<rparr>,
        \<lparr>name = ''8'', count = 1, nodeLink = None, parent = Some 4, children = [(''10'', 6)]\<rparr>,
        \<lparr>name = ''10'', count = 1, nodeLink = None, parent = Some 5, children = []\<rparr>]\<rparr> ''10''
     = Some (Inr [([''1'', ''8''], 1)])"
  by code_simp

text \<open>
  C3 (rejection of malformed input), refuted: a threshold of 0, a transaction of count -1
  and an empty item set are each accepted, and a tree is returned.
\<close>

theorem construction_accepts_malformed_input:
  "FPTree_init [([''a''], 1)] 0 = Some (Inr
     \<lparr>headerTable = [(''a'', 1, Some 1)],
      nodes = [\<lparr>name = ''Null'', count = 1, nodeLink = None, parent = None, children = [(''a'', 1)]\<rparr>,
               \<lparr>name = ''a'', count = 1, nodeLink = None, parent = Some 0, children = []\<rparr>]\<rparr>)
   \<and> FPTree_init [([''a''], - 1), ([''b''], 2)] 1 = Some (Inr
     \<lparr>headerTable = [(''b'', 2, Some 1)],
      nodes = [\<lparr>name = ''Null'', count = 1, nodeLink = None, parent = None, children = [(''b'', 1)]\<rparr>,
               \<lparr>name = ''b'', count = 2, nodeLink = None, parent = Some 0, children = []\<rparr>]\<rparr>)
   \<and> FPTree_init [([], 3), ([''b''], 2)] 1 = Some (Inr
     \<lparr>headerTable = [(''b'', 2, Some 1)],
      nodes = [\<lparr>name = ''Null'', count = 1, nodeLink = None, parent = None, children = [(''b'', 1)]\<rparr>,
               \<lparr>name = ''b'', count = 2, nodeLink = None, parent = Some 0, children = []\<rparr>]\<rparr>)"
  by code_simp

text \<open>
  C4 (the same sequence on every run), refuted: the same table, with the one key
  iterating as a, b in one run and as b, a in the other, yields two different
  sequences.
\<close>

theorem iteration_order_changes_output:
  "same_multiset [([''a'', ''b''], 1)] [([''b'', ''a''], 1)]
   \<and> mineAll (\<lambda>xs. xs) 2 [([''a'', ''b''], 1)] 1 = Some (Inr [{''a''}, {''b''}, {''b'', ''a''}])
   \<and> mineAll (\<lambda>xs. xs) 2 [([''b'', ''a''], 1)] 1 = Some (Inr [{''b''}, {''a''}, {''a'', ''b''}])
   \<and> [{''a''}, {''b''}, {''b'', ''a''}] \<noteq> [{''b''}, {''a''}, {''a'', ''b''}]"
proof -
  have "same_multiset [([''a'', ''b''], 1)] [([''b'', ''a''], 1)]"
    by (auto simp: same_multiset_def)
  moreover have "mineAll (\<lambda>xs. xs) 2 [([''a'', ''b''], 1)] 1 = Some (Inr [{''a''}, {''b''}, {''b'', ''a''}])"
    by code_simp
  moreover have "mineAll (\<lambda>xs. xs) 2 [([''b'', ''a''], 1)] 1 = Some (Inr [{''b''}, {''a''}, {''a'', ''b''}])"
    by code_simp
  moreover have "[{''a''}, {''b''}, {''b'', ''a''}] \<noteq> [{''b''}, {''a''}, {''a'', ''b''}]"
    by auto
  ultimately show ?thesis by blast
qed

subsection \<open>No IndexError\<close>

lemma insertChild_not_IndexError: "insertChild item inNode cnt t \<noteq> Some (Inl IndexError)"
  by (auto simp: insertChild_def Let_def split: option.splits)

lemma updateTree_not_IndexError:
  "items \<noteq> [] \<Longrightarrow> updateTree items inNode cnt t \<noteq> Some (Inl IndexError)"
proof (induction items arbitrary: inNode t)
  case Nil
  then show ?case by simp
next
  case (Cons item rest)
  show ?case
  proof (cases "insertChild item inNode cnt t")
    case None
    then show ?thesis by simp
  next
    case (Some r)
    show ?thesis
    proof (cases r)
      case (Inl e)
      with Some insertChild_not_IndexError[of item inNode cnt t] show ?thesis by auto
    next
      case (Inr ct)
      obtain c t' where "ct = (c, t')" by (cases ct)
      with Some Inr Cons.IH[of c t'] show ?thesis by (cases rest) auto
    qed
  qed
qed

lemma orderedItems_of_Nil: "(orderedItems_of localD = []) = (localD = [])"
  unfolding orderedItems_of_def by (metis length_0_conv length_map length_sort)

lemma buildLoop_not_IndexError: "buildLoop ts t \<noteq> Some (Inl IndexError)"
proof (induction ts arbitrary: t)
  case Nil
  then show ?case by simp
next
  case (Cons a ts)
  obtain tr cnt where a: "a = (tr, cnt)" by (cases a)
  show ?case
  proof (cases "localD_of (headerTable t) tr = []")
    case True
    with a Cons.IH show ?thesis by simp
  next
    case False
    then have "orderedItems_of (localD_of (headerTable t) tr) \<noteq> []"
      by (simp add: orderedItems_of_Nil)
    from updateTree_not_IndexError[OF this, of 0 cnt t] a False Cons.IH
    show ?thesis by (auto split: option.splits sum.splits)
  qed
qed

subsection \<open>Dictionaries, paths and chains\<close>

lemma map_of_dict_set: "map_of (dict_set k v d) = (map_of d)(k \<mapsto> v)"
  by (induction d) (auto simp: fun_eq_iff)

lemma map_fst_dict_set:
  "map fst (dict_set k v d) = (if k \<in> fst ` set d then map fst d else map fst d @ [k])"
  by (induction d) force+

lemma distinct_dict_set: "distinct (map fst d) \<Longrightarrow> distinct (map fst (dict_set k v d))"
  by (simp add: map_fst_dict_set)

lemma pathLabels_root: "parent (ns ! i) = None \<Longrightarrow> pathLabels ns i = []"
  by (subst pathLabels.simps) simp

lemma pathLabels_step:
  "parent (ns ! i) = Some p \<Longrightarrow> p < i \<Longrightarrow> pathLabels ns i = name (ns ! i) # pathLabels ns p"
  by (subst pathLabels.simps) simp

lemma pathLabels_cong:
  "(\<And>j. j \<le> i \<Longrightarrow> parent (ns' ! j) = parent (ns ! j) \<and> name (ns' ! j) = name (ns ! j))
   \<Longrightarrow> pathLabels ns' i = pathLabels ns i"
proof (induction i rule: less_induct)
  case (less i)
  show ?case
  proof (cases "parent (ns ! i)")
    case None
    with less.prems[of i] show ?thesis by (simp add: pathLabels_root)
  next
    case (Some p)
    show ?thesis
    proof (cases "p < i")
      case True
      have "pathLabels ns' p = pathLabels ns p"
        using less.IH[OF True] less.prems True by simp
      with Some True less.prems[of i] show ?thesis by (simp add: pathLabels_step)
    next
      case False
      with Some less.prems[of i] show ?thesis
        by (subst pathLabels.simps, subst (2) pathLabels.simps) simp
    qed
  qed
qed

lemma ascendTree_pathLabels:
  "parents_ok ns \<Longrightarrow> i < length ns \<Longrightarrow> ascendTree ns i acc = Some (acc @ pathLabels ns i)"
proof (induction i arbitrary: acc rule: less_induct)
  case (less i)
  show ?case
  proof (cases "i = 0")
    case True
    with less.prems have "parent (ns ! i) = None" by (simp add: parents_ok_def)
    then show ?thesis by (subst ascendTree.simps) (simp add: pathLabels_root)
  next
    case False
    with less.prems obtain p where p: "parent (ns ! i) = Some p" "p < i"
      by (auto simp: parents_ok_def)
    with less.prems have "ascendTree ns p (acc @ [name (ns ! i)]) = Some ((acc @ [name (ns ! i)]) @ pathLabels ns p)"
      using less.IH[of p] by simp
    with p show ?thesis by (subst ascendTree.simps) (simp add: pathLabels_step)
  qed
qed

lemma chained_cong:
  "(\<And>n. n \<in> set L \<Longrightarrow> nodeLink (ns' ! n) = nodeLink (ns ! n)) \<Longrightarrow> chained ns' l L = chained ns l L"
  by (induction L arbitrary: l) auto

lemma updateHeader_chained:
  "chained ns (Some h) L \<Longrightarrow>
   updateHeader ns h c = Some (ns[last L := (ns ! last L)\<lparr>nodeLink := Some c\<rparr>])"
proof (induction L arbitrary: h)
  case Nil
  then show ?case by simp
next
  case (Cons n L)
  then have h: "h = n" and rest: "chained ns (nodeLink (ns ! n)) L" by auto
  show ?case
  proof (cases L)
    case Nil
    with rest have "nodeLink (ns ! n) = None" by simp
    with h Nil show ?thesis by (subst updateHeader.simps) simp
  next
    case (Cons m L')
    with rest have "nodeLink (ns ! n) = Some m" by simp
    with h Cons Cons.IH[of m] rest show ?thesis by (subst updateHeader.simps) simp
  qed
qed

lemma labelled_cong:
  "length ns' = length ns \<Longrightarrow> (\<And>i. i < length ns \<Longrightarrow> name (ns' ! i) = name (ns ! i))
   \<Longrightarrow> labelled ns' x = labelled ns x"
  unfolding labelled_def by (auto intro: filter_cong)

lemma labelled_extend:
  "length ns' = Suc (length ns) \<Longrightarrow> 0 < length ns \<Longrightarrow>
   (\<And>i. i < length ns \<Longrightarrow> name (ns' ! i) = name (ns ! i)) \<Longrightarrow>
   labelled ns' x = labelled ns x @ (if name (ns' ! length ns) = x then [length ns] else [])"
proof -
  assume a: "length ns' = Suc (length ns)" "0 < length ns"
    and b: "\<And>i. i < length ns \<Longrightarrow> name (ns' ! i) = name (ns ! i)"
  have "[1..<length ns'] = [1..<length ns] @ [length ns]"
    using a by (simp add: upt_Suc_append Suc_le_eq)
  moreover have "filter (\<lambda>i. name (ns' ! i) = x) [1..<length ns] = filter (\<lambda>i. name (ns ! i) = x) [1..<length ns]"
    using b by (auto intro: filter_cong)
  ultimately show ?thesis by (simp add: labelled_def)
qed

lemma chained_link_last:
  "chained ns l L \<Longrightarrow> L \<noteq> [] \<Longrightarrow> distinct L \<Longrightarrow> c \<notin> set L \<Longrightarrow>
   nodeLink (ns' ! last L) = Some c \<Longrightarrow> nodeLink (ns' ! c) = None \<Longrightarrow>
   (\<And>n. n \<in> set L \<Longrightarrow> n \<noteq> last L \<Longrightarrow> nodeLink (ns' ! n) = nodeLink (ns ! n)) \<Longrightarrow>
   chained ns' l (L @ [c])"
proof (induction L arbitrary: l)
  case Nil
  then show ?case by simp
next
  case (Cons n L)
  show ?case
  proof (cases L)
    case Nil
    with Cons.prems show ?thesis by auto
  next
    case (Cons m L')
    with Cons.prems have l: "last (n # L) = last L" "last L \<in> set L" "n \<noteq> last L" by auto
    have "chained ns' (nodeLink (ns ! n)) (L @ [c])"
    proof (rule Cons.IH)
      show "chained ns (nodeLink (ns ! n)) L" using Cons.prems by simp
      show "L \<noteq> []" using Cons by simp
      show "distinct L" "c \<notin> set L" using Cons.prems by auto
      show "nodeLink (ns' ! last L) = Some c" using Cons.prems l by simp
      show "nodeLink (ns' ! c) = None" using Cons.prems by simp
      show "\<And>k. k \<in> set L \<Longrightarrow> k \<noteq> last L \<Longrightarrow> nodeLink (ns' ! k) = nodeLink (ns ! k)"
        using Cons.prems(7) l by simp
    qed
    moreover have "nodeLink (ns' ! n) = nodeLink (ns ! n)"
      using Cons.prems(7)[of n] l by simp
    ultimately show ?thesis using Cons.prems by simp
  qed
qed

subsection \<open>The invariant under a change of the store\<close>
lemma chained_None: "chained ns None L \<longleftrightarrow> L = []"
  by (cases L) auto

lemma chained_Some_nonempty: "chained ns (Some h) L \<Longrightarrow> L \<noteq> []"
  by (cases L) auto

lemma wf_tree_shape:
  assumes wf: "wf_tree \<lparr>headerTable = hdr, nodes = ns\<rparr>"
    and len: "length ns' = length ns"
    and same: "\<And>i. name (ns' ! i) = name (ns ! i) \<and> parent (ns' ! i) = parent (ns ! i)
                 \<and> nodeLink (ns' ! i) = nodeLink (ns ! i) \<and> children (ns' ! i) = children (ns ! i)"
  shows "wf_tree \<lparr>headerTable = hdr, nodes = ns'\<rparr>"
proof -
  have lab: "labelled ns' x = labelled ns x" for x
    using len same by (intro labelled_cong) auto
  have ch: "chained ns' l L = chained ns l L" for l L
    using same by (intro chained_cong) auto
  have pl: "pathLabels ns' i = pathLabels ns i" for i
    using same by (intro pathLabels_cong) auto
  have "parents_ok ns'" using wf len same by (auto simp: wf_tree_def parents_ok_def)
  moreover have "children_ok ns'" using wf len same by (simp add: wf_tree_def children_ok_def)
  ultimately show ?thesis using wf len same by (simp add: wf_tree_def lab ch pl)
qed

lemma wf_tree_extend:
  assumes wf: "wf_tree \<lparr>headerTable = hdr, nodes = ns\<rparr>"
    and inNode: "inNode < length ns"
    and item: "map_of hdr item = Some (hc, l)"
    and fresh: "item \<notin> set (pathLabels ns inNode)"
    and len: "length ns2 = Suc (length ns)"
    and old: "\<And>i. i < length ns \<Longrightarrow> name (ns2 ! i) = name (ns ! i) \<and> parent (ns2 ! i) = parent (ns ! i)"
    and new: "name (ns2 ! length ns) = item" "parent (ns2 ! length ns) = Some inNode"
             "nodeLink (ns2 ! length ns) = None" "children (ns2 ! length ns) = []"
    and kids: "\<And>i. i < length ns \<Longrightarrow> children (ns2 ! i) =
                 (if i = inNode then dict_set item (length ns) (children (ns ! inNode)) else children (ns ! i))"
    and links: "\<And>i. i < length ns \<Longrightarrow> nodeLink (ns2 ! i) =
                 (if labelled ns item \<noteq> [] \<and> i = last (labelled ns item) then Some (length ns)
                  else nodeLink (ns ! i))"
    and keys: "map fst hdr2 = map fst hdr"
    and others: "\<And>x. x \<noteq> item \<Longrightarrow> map_of hdr2 x = map_of hdr x"
    and entry: "map_of hdr2 item = Some (hc, if labelled ns item = [] then Some (length ns) else l)"
  shows "wf_tree \<lparr>headerTable = hdr2, nodes = ns2\<rparr>"
proof -
  let ?c = "length ns"
  let ?L = "labelled ns item"
  from wf have po: "parents_ok ns" and co: "children_ok ns"
    and dk: "distinct (map fst hdr)"
    and nk: "\<And>i. 0 < i \<Longrightarrow> i < length ns \<Longrightarrow> name (ns ! i) \<in> fst ` set hdr"
    and chn: "\<And>x c l. map_of hdr x = Some (c, l) \<Longrightarrow> chained ns l (labelled ns x)"
    and dp: "\<And>i. i < length ns \<Longrightarrow> distinct (pathLabels ns i)"
    by (auto simp: wf_tree_def)
  have pos: "0 < length ns" using po by (simp add: parents_ok_def)
  have keyset: "fst ` set hdr2 = fst ` set hdr"
    using keys by (metis list.set_map)
  have item_key: "item \<in> fst ` set hdr"
    using item by (metis map_of_eq_None_iff option.distinct(1))
  have P1: "parents_ok ns2"
    unfolding parents_ok_def
  proof (intro conjI allI impI)
    show "ns2 \<noteq> []" using len by auto
    show "parent (ns2 ! 0) = None" using old[of 0] pos po by (simp add: parents_ok_def)
  next
    fix i assume i: "0 < i \<and> i < length ns2"
    show "\<exists>p. parent (ns2 ! i) = Some p \<and> p < i"
    proof (cases "i < length ns")
      case True
      with i po old[of i] show ?thesis by (auto simp: parents_ok_def)
    next
      case False
      with i len have "i = length ns" by simp
      with new inNode show ?thesis by simp
    qed
  qed
  have P2: "children_ok ns2"
    unfolding children_ok_def
  proof (intro allI impI)
    fix p x c' assume a: "p < length ns2 \<and> map_of (children (ns2 ! p)) x = Some c'"
    show "c' < length ns2 \<and> parent (ns2 ! c') = Some p \<and> name (ns2 ! c') = x"
    proof (cases "p < length ns")
      case False
      with a len have "p = length ns" by simp
      with a new show ?thesis by simp
    next
      case True
      show ?thesis
      proof (cases "p = inNode \<and> x = item")
        case True
        with a kids[of p] inNode have "c' = length ns" by (simp add: map_of_dict_set)
        with True new len show ?thesis by simp
      next
        case False
        with a kids[of p] True have "map_of (children (ns ! p)) x = Some c'"
          by (auto simp: map_of_dict_set split: if_splits)
        with co True have "c' < length ns \<and> parent (ns ! c') = Some p \<and> name (ns ! c') = x"
          unfolding children_ok_def by blast
        with old[of c'] len show ?thesis by simp
      qed
    qed
  qed
  have P4: "name (ns2 ! i) \<in> fst ` set hdr2" if "0 < i" "i < length ns2" for i
  proof (cases "i < length ns")
    case True
    with that nk[of i] old[of i] keyset show ?thesis by simp
  next
    case False
    with that len have "i = length ns" by simp
    with new item_key keyset show ?thesis by simp
  qed
  have lab: "labelled ns2 x = labelled ns x @ (if item = x then [?c] else [])" for x
    using labelled_extend[OF len pos, of x] old new by simp
  have P5: "chained ns2 l' (labelled ns2 x)" if m: "map_of hdr2 x = Some (c', l')" for x c' l'
  proof (cases "x = item")
    case False
    with m others have "map_of hdr x = Some (c', l')" by simp
    then have "chained ns l' (labelled ns x)" by (rule chn)
    moreover have "nodeLink (ns2 ! n) = nodeLink (ns ! n)" if "n \<in> set (labelled ns x)" for n
    proof -
      from that have n: "n < length ns" "name (ns ! n) = x" by (auto simp: labelled_def)
      have "\<not> (?L \<noteq> [] \<and> n = last ?L)"
      proof
        assume "?L \<noteq> [] \<and> n = last ?L"
        then have "n \<in> set ?L" by auto
        then have "name (ns ! n) = item" by (simp add: labelled_def)
        with n False show False by simp
      qed
      with links[OF n(1)] show ?thesis by auto
    qed
    ultimately have "chained ns2 l' (labelled ns x)"
      using chained_cong[of "labelled ns x" ns2 ns l'] by blast
    with False lab show ?thesis by simp
  next
    case True
    with m entry have l': "l' = (if ?L = [] then Some ?c else l)" by simp
    have old_chain: "chained ns l ?L" using item by (rule chn)
    show ?thesis
    proof (cases "?L = []")
      case True
      with l' new \<open>x = item\<close> lab show ?thesis by simp
    next
      case False
      have "chained ns2 l (?L @ [?c])"
      proof (rule chained_link_last[OF old_chain False])
        show "distinct ?L" by (simp add: labelled_def)
        show "?c \<notin> set ?L" by (auto simp: labelled_def)
        have "last ?L \<in> set ?L" using False by simp
        then have "last ?L < length ns" by (auto simp: labelled_def)
        from links[OF this] False show "nodeLink (ns2 ! last ?L) = Some ?c" by simp
        show "nodeLink (ns2 ! ?c) = None" using new by simp
        fix n assume "n \<in> set ?L" "n \<noteq> last ?L"
        then have "n < length ns" by (auto simp: labelled_def)
        from links[OF this] \<open>n \<noteq> last ?L\<close> show "nodeLink (ns2 ! n) = nodeLink (ns ! n)" by simp
      qed
      with False l' \<open>x = item\<close> lab show ?thesis by simp
    qed
  qed
  have pl: "pathLabels ns2 i = pathLabels ns i" if "i < length ns" for i
    using that old by (intro pathLabels_cong) auto
  have P6: "distinct (pathLabels ns2 i)" if "i < length ns2" for i
  proof (cases "i < length ns")
    case True
    with dp pl show ?thesis by simp
  next
    case False
    with that len have i: "i = length ns" by simp
    have "pathLabels ns2 i = item # pathLabels ns2 inNode"
      using pathLabels_step[of ns2 i inNode] new inNode i by simp
    with pl[OF inNode] fresh dp[OF inNode] show ?thesis by simp
  qed
  have "\<forall>i. 0 < i \<and> i < length ns2 \<longrightarrow> name (ns2 ! i) \<in> fst ` set hdr2"
    using P4 by blast
  moreover have "\<forall>x c l. map_of hdr2 x = Some (c, l) \<longrightarrow> chained ns2 l (labelled ns2 x)"
    using P5 by blast
  moreover have "\<forall>i < length ns2. distinct (pathLabels ns2 i)"
    using P6 by blast
  ultimately show ?thesis
    unfolding wf_tree_def using P1 P2 dk keys by simp
qed

subsection \<open>The constructor keeps the invariant\<close>

lemma insertChild_existing:
  assumes wf: "wf_tree \<lparr>headerTable = hdr, nodes = ns\<rparr>" and inN: "inNode < length ns"
    and Some: "map_of (children (ns ! inNode)) item = Some c"
  shows "insertChild item inNode cnt \<lparr>headerTable = hdr, nodes = ns\<rparr>
           = Some (Inr (c, \<lparr>headerTable = hdr, nodes = ns[c := inc (ns ! c) cnt]\<rparr>))"
    and "wf_tree \<lparr>headerTable = hdr, nodes = ns[c := inc (ns ! c) cnt]\<rparr>"
    and "c < length ns"
    and "pathLabels (ns[c := inc (ns ! c) cnt]) c = item # pathLabels ns inNode"
proof -
  from wf have po: "parents_ok ns" and co: "children_ok ns"
    by (auto simp: wf_tree_def)
  from Some co inN have c: "c < length ns" "parent (ns ! c) = Some inNode" "name (ns ! c) = item"
    unfolding children_ok_def by blast+
  let ?ns' = "ns[c := inc (ns ! c) cnt]"
  show "insertChild item inNode cnt \<lparr>headerTable = hdr, nodes = ns\<rparr>
           = Some (Inr (c, \<lparr>headerTable = hdr, nodes = ?ns'\<rparr>))"
    using Some by (simp add: insertChild_def)
  have same: "name (?ns' ! i) = name (ns ! i) \<and> parent (?ns' ! i) = parent (ns ! i)
               \<and> nodeLink (?ns' ! i) = nodeLink (ns ! i) \<and> children (?ns' ! i) = children (ns ! i)" for i
    using c(1) by (cases "i = c") (simp_all add: inc_def)
  show "wf_tree \<lparr>headerTable = hdr, nodes = ?ns'\<rparr>"
    by (rule wf_tree_shape[OF wf]) (simp, rule same)
  show "c < length ns" by (rule c(1))
  have "c \<noteq> 0" using c(2) po by (auto simp: parents_ok_def)
  with po c have lt: "inNode < c" by (auto simp: parents_ok_def)
  have "pathLabels ?ns' c = pathLabels ns c"
    by (rule pathLabels_cong) (simp add: same)
  also have "\<dots> = item # pathLabels ns inNode"
    using pathLabels_step[OF c(2) lt] c(3) by simp
  finally show "pathLabels ?ns' c = item # pathLabels ns inNode" .
qed

lemma insertChild_fresh_store:
  assumes inN: "inNode < length ns"
    and ns1_def: "ns1 = ns[inNode := (ns ! inNode)\<lparr>children := dict_set item (length ns) (children (ns ! inNode))\<rparr>]
                 @ [TreeNode_init item cnt (Some inNode)]"
  shows "length ns1 = Suc (length ns)"
    and "ns1 ! length ns = TreeNode_init item cnt (Some inNode)"
    and "\<And>i. i < length ns \<Longrightarrow> name (ns1 ! i) = name (ns ! i) \<and> parent (ns1 ! i) = parent (ns ! i)
           \<and> nodeLink (ns1 ! i) = nodeLink (ns ! i)
           \<and> children (ns1 ! i) = (if i = inNode then dict_set item (length ns) (children (ns ! inNode))
                                      else children (ns ! i))"
proof -
  show "length ns1 = Suc (length ns)" by (simp add: ns1_def)
  show "ns1 ! length ns = TreeNode_init item cnt (Some inNode)"
    by (simp add: ns1_def nth_append)
  fix i assume i: "i < length ns"
  show "name (ns1 ! i) = name (ns ! i) \<and> parent (ns1 ! i) = parent (ns ! i)
           \<and> nodeLink (ns1 ! i) = nodeLink (ns ! i)
           \<and> children (ns1 ! i) = (if i = inNode then dict_set item (length ns) (children (ns ! inNode))
                                      else children (ns ! i))"
  proof (cases "i = inNode")
    case True
    with i show ?thesis by (simp add: ns1_def nth_append)
  next
    case False
    with i show ?thesis by (simp add: ns1_def nth_append)
  qed
qed

lemma link_last_store:
  assumes k: "k < length ns1"
    and ns2_def: "ns2 = ns1[k := (ns1 ! k)\<lparr>nodeLink := Some c\<rparr>]"
  shows "length ns2 = length ns1"
    and "\<And>i. name (ns2 ! i) = name (ns1 ! i) \<and> parent (ns2 ! i) = parent (ns1 ! i)
           \<and> children (ns2 ! i) = children (ns1 ! i)
           \<and> nodeLink (ns2 ! i) = (if i = k then Some c else nodeLink (ns1 ! i))"
proof -
  show "length ns2 = length ns1" by (simp add: ns2_def)
  fix i
  show "name (ns2 ! i) = name (ns1 ! i) \<and> parent (ns2 ! i) = parent (ns1 ! i)
           \<and> children (ns2 ! i) = children (ns1 ! i)
           \<and> nodeLink (ns2 ! i) = (if i = k then Some c else nodeLink (ns1 ! i))"
    using k by (cases "i = k") (simp_all add: ns2_def)
qed

lemma insertChild_new_unfold:
  assumes None: "map_of (children (ns ! inNode)) item = None"
    and ent: "map_of hdr item = Some (hc, l)"
    and ns1: "ns1 = ns[inNode := (ns ! inNode)\<lparr>children := dict_set item (length ns) (children (ns ! inNode))\<rparr>]
                 @ [TreeNode_init item cnt (Some inNode)]"
  shows "insertChild item inNode cnt \<lparr>headerTable = hdr, nodes = ns\<rparr> =
     (case l of
        None \<Rightarrow> Some (Inr (length ns, \<lparr>headerTable = dict_set item (hc, Some (length ns)) hdr, nodes = ns1\<rparr>))
      | Some h \<Rightarrow> (case updateHeader ns1 h (length ns) of
                    None \<Rightarrow> None
                  | Some ns2 \<Rightarrow> Some (Inr (length ns, \<lparr>headerTable = hdr, nodes = ns2\<rparr>))))"
  unfolding ns1 insertChild_def Let_def using None ent
  by (simp split: option.splits)

lemma insertChild_new:
  assumes wf: "wf_tree \<lparr>headerTable = hdr, nodes = ns\<rparr>" and inN: "inNode < length ns"
    and None: "map_of (children (ns ! inNode)) item = None"
    and ent: "map_of hdr item = Some (hc, l)"
    and fresh: "item \<notin> set (pathLabels ns inNode)"
  shows "\<exists>hdr2 ns2. insertChild item inNode cnt \<lparr>headerTable = hdr, nodes = ns\<rparr>
             = Some (Inr (length ns, \<lparr>headerTable = hdr2, nodes = ns2\<rparr>))
           \<and> wf_tree \<lparr>headerTable = hdr2, nodes = ns2\<rparr> \<and> length ns2 = Suc (length ns)
           \<and> pathLabels ns2 (length ns) = item # pathLabels ns inNode
           \<and> map fst hdr2 = map fst hdr"
proof -
  define L where "L = labelled ns item"
  define ns1 where "ns1 = ns[inNode := (ns ! inNode)\<lparr>children := dict_set item (length ns) (children (ns ! inNode))\<rparr>]
                 @ [TreeNode_init item cnt (Some inNode)]"
  note s1 = insertChild_fresh_store[OF inN ns1_def]
  note unf = insertChild_new_unfold[OF None ent ns1_def]
  from wf have chn: "\<And>x c l. map_of hdr x = Some (c, l) \<Longrightarrow> chained ns l (labelled ns x)"
    by (auto simp: wf_tree_def)
  have old_chain: "chained ns l L" unfolding L_def using ent by (rule chn)
  have key: "item \<in> fst ` set hdr"
    using ent by (metis map_of_eq_None_iff option.distinct(1))
  have Lbound: "n < length ns" if "n \<in> set L" for n
    using that by (auto simp: L_def labelled_def)
  have fin: "\<exists>hdr2 ns2. insertChild item inNode cnt \<lparr>headerTable = hdr, nodes = ns\<rparr>
          = Some (Inr (length ns, \<lparr>headerTable = hdr2, nodes = ns2\<rparr>))
        \<and> length ns2 = Suc (length ns)
        \<and> (\<forall>i < length ns. name (ns2 ! i) = name (ns ! i) \<and> parent (ns2 ! i) = parent (ns ! i)
              \<and> children (ns2 ! i) = (if i = inNode then dict_set item (length ns) (children (ns ! inNode)) else children (ns ! i))
              \<and> nodeLink (ns2 ! i) = (if L \<noteq> [] \<and> i = last L then Some (length ns) else nodeLink (ns ! i)))
        \<and> ns2 ! length ns = TreeNode_init item cnt (Some inNode)
        \<and> map fst hdr2 = map fst hdr
        \<and> (\<forall>x. x \<noteq> item \<longrightarrow> map_of hdr2 x = map_of hdr x)
        \<and> map_of hdr2 item = Some (hc, if L = [] then Some (length ns) else l)"
  proof (cases l)
    case None
    with old_chain have Lnil: "L = []" by (simp add: chained_None)
    have r: "insertChild item inNode cnt \<lparr>headerTable = hdr, nodes = ns\<rparr>
           = Some (Inr (length ns, \<lparr>headerTable = dict_set item (hc, Some (length ns)) hdr, nodes = ns1\<rparr>))"
      using unf None by simp
    have k: "map fst (dict_set item (hc, Some (length ns)) hdr) = map fst hdr"
      using key by (simp add: map_fst_dict_set)
    have o: "\<forall>x. x \<noteq> item \<longrightarrow> map_of (dict_set item (hc, Some (length ns)) hdr) x = map_of hdr x"
      by (simp add: map_of_dict_set)
    have e: "map_of (dict_set item (hc, Some (length ns)) hdr) item = Some (hc, if L = [] then Some (length ns) else l)"
      using Lnil by (simp add: map_of_dict_set)
    have f: "\<forall>i < length ns. name (ns1 ! i) = name (ns ! i) \<and> parent (ns1 ! i) = parent (ns ! i)
              \<and> children (ns1 ! i) = (if i = inNode then dict_set item (length ns) (children (ns ! inNode)) else children (ns ! i))
              \<and> nodeLink (ns1 ! i) = (if L \<noteq> [] \<and> i = last L then Some (length ns) else nodeLink (ns ! i))"
      using s1(3) Lnil by simp
    from r s1(1) f s1(2) k o e show ?thesis by blast
  next
    case (Some h)
    with old_chain have Lne: "L \<noteq> []" by (auto dest: chained_Some_nonempty)
    then have "last L \<in> set L" by simp
    then have lastb: "last L < length ns" by (rule Lbound)
    then have lastb1: "last L < length ns1" using s1(1) by simp
    have "chained ns1 (Some h) L = chained ns (Some h) L"
    proof (rule chained_cong)
      fix n assume "n \<in> set L"
      then have "n < length ns" by (rule Lbound)
      then show "nodeLink (ns1 ! n) = nodeLink (ns ! n)" using s1(3) by simp
    qed
    with old_chain Some have "chained ns1 (Some h) L" by simp
    from updateHeader_chained[OF this, of "length ns"]
    have uh: "updateHeader ns1 h (length ns) = Some (ns1[last L := (ns1 ! last L)\<lparr>nodeLink := Some (length ns)\<rparr>])" .
    define ns2 where "ns2 = ns1[last L := (ns1 ! last L)\<lparr>nodeLink := Some (length ns)\<rparr>]"
    note s2 = link_last_store[OF lastb1 ns2_def]
    have r: "insertChild item inNode cnt \<lparr>headerTable = hdr, nodes = ns\<rparr>
           = Some (Inr (length ns, \<lparr>headerTable = hdr, nodes = ns2\<rparr>))"
      using unf Some uh ns2_def by simp
    have len: "length ns2 = Suc (length ns)" using s2(1) s1(1) by simp
    have f: "\<forall>i < length ns. name (ns2 ! i) = name (ns ! i) \<and> parent (ns2 ! i) = parent (ns ! i)
              \<and> children (ns2 ! i) = (if i = inNode then dict_set item (length ns) (children (ns ! inNode)) else children (ns ! i))
              \<and> nodeLink (ns2 ! i) = (if L \<noteq> [] \<and> i = last L then Some (length ns) else nodeLink (ns ! i))"
    proof (intro allI impI)
      fix i assume i: "i < length ns"
      from s2(2)[of i] s1(3)[OF i] Lne
      show "name (ns2 ! i) = name (ns ! i) \<and> parent (ns2 ! i) = parent (ns ! i)
              \<and> children (ns2 ! i) = (if i = inNode then dict_set item (length ns) (children (ns ! inNode)) else children (ns ! i))
              \<and> nodeLink (ns2 ! i) = (if L \<noteq> [] \<and> i = last L then Some (length ns) else nodeLink (ns ! i))"
        by simp
    qed
    have "ns2 ! length ns = ns1 ! length ns"
      using lastb by (simp add: ns2_def)
    then have n: "ns2 ! length ns = TreeNode_init item cnt (Some inNode)" using s1(2) by simp
    have e: "map_of hdr item = Some (hc, if L = [] then Some (length ns) else l)"
      using ent Lne by simp
    from r len f n e show ?thesis by blast
  qed
  then obtain hdr2 ns2 where
    res: "insertChild item inNode cnt \<lparr>headerTable = hdr, nodes = ns\<rparr>
            = Some (Inr (length ns, \<lparr>headerTable = hdr2, nodes = ns2\<rparr>))"
    and len: "length ns2 = Suc (length ns)"
    and all: "\<forall>i < length ns. name (ns2 ! i) = name (ns ! i) \<and> parent (ns2 ! i) = parent (ns ! i)
              \<and> children (ns2 ! i) = (if i = inNode then dict_set item (length ns) (children (ns ! inNode)) else children (ns ! i))
              \<and> nodeLink (ns2 ! i) = (if L \<noteq> [] \<and> i = last L then Some (length ns) else nodeLink (ns ! i))"
    and new: "ns2 ! length ns = TreeNode_init item cnt (Some inNode)"
    and keys: "map fst hdr2 = map fst hdr"
    and others: "\<forall>x. x \<noteq> item \<longrightarrow> map_of hdr2 x = map_of hdr x"
    and entry: "map_of hdr2 item = Some (hc, if L = [] then Some (length ns) else l)"
    by blast
  have old: "\<And>i. i < length ns \<Longrightarrow> name (ns2 ! i) = name (ns ! i) \<and> parent (ns2 ! i) = parent (ns ! i)"
    using all by blast
  have kids: "\<And>i. i < length ns \<Longrightarrow> children (ns2 ! i) =
                 (if i = inNode then dict_set item (length ns) (children (ns ! inNode)) else children (ns ! i))"
    using all by blast
  have links: "\<And>i. i < length ns \<Longrightarrow> nodeLink (ns2 ! i) =
                 (if labelled ns item \<noteq> [] \<and> i = last (labelled ns item) then Some (length ns) else nodeLink (ns ! i))"
    using all unfolding L_def by blast
  have others': "\<And>x. x \<noteq> item \<Longrightarrow> map_of hdr2 x = map_of hdr x"
    using others by blast
  have newf: "name (ns2 ! length ns) = item" "parent (ns2 ! length ns) = Some inNode"
    "nodeLink (ns2 ! length ns) = None" "children (ns2 ! length ns) = []"
    using new by (simp_all add: TreeNode_init_def)
  have wf': "wf_tree \<lparr>headerTable = hdr2, nodes = ns2\<rparr>"
    using wf inN ent fresh len old newf kids links keys others' entry[unfolded L_def]
    by (rule wf_tree_extend)
  have "pathLabels ns2 (length ns) = item # pathLabels ns2 inNode"
    using pathLabels_step[of ns2 "length ns" inNode] newf inN by simp
  also have "pathLabels ns2 inNode = pathLabels ns inNode"
    using old inN by (intro pathLabels_cong) auto
  finally show ?thesis using res wf' len keys by blast
qed

lemma insertChild_wf:
  assumes wf: "wf_tree t" and inNode: "inNode < length (nodes t)"
    and key: "item \<in> fst ` set (headerTable t)"
    and fresh: "item \<notin> set (pathLabels (nodes t) inNode)"
  shows "\<exists>c t'. insertChild item inNode cnt t = Some (Inr (c, t')) \<and> wf_tree t' \<and>
           c < length (nodes t') \<and>
           pathLabels (nodes t') c = item # pathLabels (nodes t) inNode \<and>
           map fst (headerTable t') = map fst (headerTable t)"
proof -
  obtain hdr ns where t: "t = \<lparr>headerTable = hdr, nodes = ns\<rparr>" by (cases t)
  from wf t have wf0: "wf_tree \<lparr>headerTable = hdr, nodes = ns\<rparr>" by simp
  from inNode t have inN: "inNode < length ns" by simp
  from fresh t have fr: "item \<notin> set (pathLabels ns inNode)" by simp
  show ?thesis
  proof (cases "map_of (children (ns ! inNode)) item")
    case (Some c)
    from insertChild_existing[OF wf0 inN Some] t show ?thesis by simp
  next
    case None
    from key t obtain hc l where ent: "map_of hdr item = Some (hc, l)"
      by (cases "map_of hdr item") (auto simp: map_of_eq_None_iff)
    from insertChild_new[OF wf0 inN None ent fr, of cnt] obtain hdr2 ns2 where
      "insertChild item inNode cnt \<lparr>headerTable = hdr, nodes = ns\<rparr>
         = Some (Inr (length ns, \<lparr>headerTable = hdr2, nodes = ns2\<rparr>))"
      "wf_tree \<lparr>headerTable = hdr2, nodes = ns2\<rparr>" "length ns2 = Suc (length ns)"
      "pathLabels ns2 (length ns) = item # pathLabels ns inNode"
      "map fst hdr2 = map fst hdr"
      by blast
    with t show ?thesis by simp
  qed
qed

lemma updateTree_wf:
  "wf_tree t \<Longrightarrow> inNode < length (nodes t) \<Longrightarrow> items \<noteq> [] \<Longrightarrow> distinct items \<Longrightarrow>
   set items \<subseteq> fst ` set (headerTable t) \<Longrightarrow>
   set items \<inter> set (pathLabels (nodes t) inNode) = {} \<Longrightarrow>
   \<exists>t'. updateTree items inNode cnt t = Some (Inr t') \<and> wf_tree t' \<and>
        map fst (headerTable t') = map fst (headerTable t)"
proof (induction items arbitrary: inNode t)
  case Nil
  then show ?case by simp
next
  case (Cons item rest)
  from Cons.prems have key: "item \<in> fst ` set (headerTable t)"
    and fresh: "item \<notin> set (pathLabels (nodes t) inNode)" by auto
  from insertChild_wf[OF Cons.prems(1,2) key fresh, of cnt] obtain c t1 where
    ic: "insertChild item inNode cnt t = Some (Inr (c, t1))" and wf1: "wf_tree t1"
    and c: "c < length (nodes t1)"
    and pl: "pathLabels (nodes t1) c = item # pathLabels (nodes t) inNode"
    and keys: "map fst (headerTable t1) = map fst (headerTable t)"
    by blast
  show ?case
  proof (cases rest)
    case Nil
    with ic wf1 keys show ?thesis by simp
  next
    case (Cons r rs)
    have keyset: "fst ` set (headerTable t1) = fst ` set (headerTable t)"
      using keys by (metis list.set_map)
    have "\<exists>t'. updateTree rest c cnt t1 = Some (Inr t') \<and> wf_tree t' \<and>
            map fst (headerTable t') = map fst (headerTable t1)"
    proof (rule Cons.IH[OF wf1 c])
      show "rest \<noteq> []" using Cons by simp
      show "distinct rest" using Cons.prems by simp
      show "set rest \<subseteq> fst ` set (headerTable t1)" using Cons.prems keyset by simp
      show "set rest \<inter> set (pathLabels (nodes t1) c) = {}"
        using Cons.prems pl by auto
    qed
    with ic keys Cons show ?thesis by auto
  qed
qed

lemma localD_fold_keys:
  "distinct (map fst acc) \<Longrightarrow> fst ` set acc \<subseteq> fst ` set hdr \<Longrightarrow>
   distinct (map fst (fold (\<lambda>item d. case map_of hdr item of Some (c, l) \<Rightarrow> dict_set item c d | None \<Rightarrow> d) tr acc))
   \<and> fst ` set (fold (\<lambda>item d. case map_of hdr item of Some (c, l) \<Rightarrow> dict_set item c d | None \<Rightarrow> d) tr acc)
        \<subseteq> fst ` set hdr"
proof (induction tr arbitrary: acc)
  case Nil
  then show ?case by simp
next
  case (Cons item tr)
  show ?case
  proof (cases "map_of hdr item")
    case None
    with Cons show ?thesis by simp
  next
    case (Some e)
    obtain c l where e: "e = (c, l)" by (cases e)
    from Some have ik: "item \<in> fst ` set hdr"
      by (metis map_of_eq_None_iff option.distinct(1))
    have d: "distinct (map fst (dict_set item c acc))"
      using Cons.prems by (simp add: distinct_dict_set)
    have "set (map fst (dict_set item c acc)) \<subseteq> insert item (fst ` set acc)"
      by (auto simp: map_fst_dict_set)
    then have s: "fst ` set (dict_set item c acc) \<subseteq> fst ` set hdr"
      using Cons.prems ik by auto
    from Cons.IH[OF d s] Some e show ?thesis by simp
  qed
qed

lemma localD_of_keys:
  "distinct (map fst (localD_of hdr tr))" "fst ` set (localD_of hdr tr) \<subseteq> fst ` set hdr"
  using localD_fold_keys[of "[]" hdr tr] by (simp_all add: localD_of_def)

lemma orderedItems_of_props:
  assumes "distinct (map fst localD)"
  shows "distinct (orderedItems_of localD)" "set (orderedItems_of localD) = fst ` set localD"
proof -
  from assms have "distinct localD" "inj_on fst (set localD)" by (simp_all add: distinct_map)
  then show "distinct (orderedItems_of localD)"
    by (simp add: orderedItems_of_def distinct_map)
  show "set (orderedItems_of localD) = fst ` set localD"
    by (simp add: orderedItems_of_def)
qed

lemma buildLoop_wf:
  "wf_tree t \<Longrightarrow>
   \<exists>t'. buildLoop ts t = Some (Inr t') \<and> wf_tree t' \<and> map fst (headerTable t') = map fst (headerTable t)"
proof (induction ts arbitrary: t)
  case Nil
  then show ?case by simp
next
  case (Cons a ts)
  obtain tr cnt where a: "a = (tr, cnt)" by (cases a)
  let ?d = "localD_of (headerTable t) tr"
  show ?case
  proof (cases "?d = []")
    case True
    with a Cons show ?thesis by simp
  next
    case False
    from Cons.prems have po: "parents_ok (nodes t)" by (simp add: wf_tree_def)
    then have r: "0 < length (nodes t)" "pathLabels (nodes t) 0 = []"
      by (simp_all add: parents_ok_def pathLabels_root)
    have "\<exists>t'. updateTree (orderedItems_of ?d) 0 cnt t = Some (Inr t') \<and> wf_tree t' \<and>
            map fst (headerTable t') = map fst (headerTable t)"
    proof (rule updateTree_wf[OF Cons.prems r(1)])
      show "orderedItems_of ?d \<noteq> []" using False by (simp add: orderedItems_of_Nil)
      show "distinct (orderedItems_of ?d)"
        by (rule orderedItems_of_props(1)) (rule localD_of_keys(1))
      show "set (orderedItems_of ?d) \<subseteq> fst ` set (headerTable t)"
        using orderedItems_of_props(2)[OF localD_of_keys(1)] localD_of_keys(2) by simp
      show "set (orderedItems_of ?d) \<inter> set (pathLabels (nodes t) 0) = {}" using r by simp
    qed
    then obtain t1 where u: "updateTree (orderedItems_of ?d) 0 cnt t = Some (Inr t1)"
      and wf1: "wf_tree t1" and k1: "map fst (headerTable t1) = map fst (headerTable t)" by blast
    from Cons.IH[OF wf1] obtain t' where "buildLoop ts t1 = Some (Inr t')" "wf_tree t'"
      "map fst (headerTable t') = map fst (headerTable t1)" by blast
    with u k1 a False show ?thesis by simp
  qed
qed

lemma addCount_fold_distinct:
  "distinct (map fst h) \<Longrightarrow> distinct (map fst (fold (addCount cnt) tr h))"
  by (induction tr arbitrary: h) (simp_all add: addCount_def distinct_dict_set)

lemma countItems_fold_distinct:
  "distinct (map fst h) \<Longrightarrow> distinct (map fst (fold (\<lambda>(tr, cnt) h. fold (addCount cnt) tr h) ts h))"
  by (induction ts arbitrary: h) (auto simp: addCount_fold_distinct)

lemma countItems_distinct: "distinct (map fst (countItems ts))"
  by (simp add: countItems_def countItems_fold_distinct)

lemma fst_header_comp: "(fst \<circ> (\<lambda>(k, v). (k, (v, None)))) = fst"
  by (auto simp: fun_eq_iff)

lemma wf_tree_initial:
  assumes "distinct (map fst kept)"
  shows "wf_tree \<lparr>headerTable = map (\<lambda>(k, v). (k, (v, None))) kept,
                  nodes = [TreeNode_init ''Null'' 1 None]\<rparr>"
proof -
  have "l = None" if "map_of (map (\<lambda>(k, v). (k, (v, None))) kept) x = Some (c, l)" for x c l
    using map_of_SomeD[OF that] by auto
  moreover have "labelled [TreeNode_init ''Null'' 1 None] x = []" for x
    by (simp add: labelled_def)
  moreover have "pathLabels [TreeNode_init ''Null'' 1 None] 0 = []"
    by (rule pathLabels_root) (simp add: TreeNode_init_def)
  ultimately show ?thesis
    using assms
    by (auto simp: wf_tree_def parents_ok_def children_ok_def TreeNode_init_def fst_header_comp)
qed

lemma wf_tree_empty: "wf_tree \<lparr>headerTable = [], nodes = [TreeNode_init ''Null'' 1 None]\<rparr>"
  using wf_tree_initial[of "[]"] by simp

lemma FPTree_init_wf:
  "\<exists>t. FPTree_init ts minSup = Some (Inr t) \<and> wf_tree t \<and>
       map fst (headerTable t) = map fst (filter (\<lambda>(k, v). \<not> v < minSup) (countItems ts))"
proof -
  let ?kept = "filter (\<lambda>(k, v). \<not> v < minSup) (countItems ts)"
  have dk: "distinct (map fst ?kept)"
    using countItems_distinct by (rule distinct_map_filter)
  show ?thesis
  proof (cases "?kept = []")
    case True
    then show ?thesis using wf_tree_empty by (simp add: FPTree_init_def)
  next
    case False
    from buildLoop_wf[OF wf_tree_initial[OF dk], of ts] False
    show ?thesis by (simp add: FPTree_init_def Let_def fst_header_comp)
  qed
qed

subsection \<open>The first item of the sequence\<close>

text \<open>
  C10 (\<^verbatim>\<open>updateTree\<close> never reads the first item of an empty sequence).  In the model
  \<^verbatim>\<open>updateTree\<close> on the empty sequence is an IndexError.  The constructor returns a tree on
  every input, so no call of \<^verbatim>\<open>updateTree\<close> it makes, at the top or in the recursion, is on
  the empty sequence; the loop over the transactions raises no IndexError from any tree;
  \<^verbatim>\<open>updateTree\<close> on a non-empty sequence never raises IndexError,
  whatever the tree, since it recurses only while more than one item remains; and a
  transaction with no surviving item is skipped.
\<close>

theorem updateTree_only_on_nonempty:
  "(\<exists>t'. FPTree_init ts minSup = Some (Inr t'))
   \<and> buildLoop ts t \<noteq> Some (Inl IndexError)
   \<and> (items \<noteq> [] \<longrightarrow> updateTree items inNode cnt t \<noteq> Some (Inl IndexError))
   \<and> (localD_of (headerTable t) tr = [] \<longrightarrow> buildLoop ((tr, cnt) # rest) t = buildLoop rest t)"
  using FPTree_init_wf[of ts minSup] updateTree_not_IndexError[of items inNode cnt t]
    buildLoop_not_IndexError[of ts t]
  by auto

text \<open>The three parts at a concrete table, sequence and tree.\<close>

theorem updateTree_only_on_nonempty_witness:
  "(\<exists>t'. FPTree_init [([''a''], 1), ([''b''], 1)] 1 = Some (Inr t'))
   \<and> buildLoop [([''a''], 1), ([''b''], 1)]
         \<lparr>headerTable = [(''a'', 1, None)], nodes = [TreeNode_init ''Null'' 1 None]\<rparr> \<noteq> Some (Inl IndexError)
   \<and> ([''a''] \<noteq> [] \<and> updateTree [''a''] 0 1 \<lparr>headerTable = [(''a'', 1, None)], nodes = [TreeNode_init ''Null'' 1 None]\<rparr> \<noteq> Some (Inl IndexError))
   \<and> (localD_of (headerTable \<lparr>headerTable = [(''a'', 1, None)], nodes = [TreeNode_init ''Null'' 1 None]\<rparr>) [''b''] = []
       \<and> buildLoop (([''b''], 1) # []) \<lparr>headerTable = [(''a'', 1, None)], nodes = [TreeNode_init ''Null'' 1 None]\<rparr>
           = buildLoop [] \<lparr>headerTable = [(''a'', 1, None)], nodes = [TreeNode_init ''Null'' 1 None]\<rparr>)"
  using updateTree_only_on_nonempty[where ts = "[([''a''], 1), ([''b''], 1)]" and minSup = 1
      and items = "[''a'']" and inNode = 0 and cnt = 1 and tr = "[''b'']" and rest = "[]"
      and t = "\<lparr>headerTable = [(''a'', 1, None)], nodes = [TreeNode_init ''Null'' 1 None]\<rparr>"]
  by (simp add: localD_of_def)

lemma followChain_chained:
  "chained ns l L \<Longrightarrow> followChain ns l visited = Some (visited @ L)"
proof (induction L arbitrary: l visited)
  case Nil
  then show ?case by (subst followChain.simps) simp
next
  case (Cons n L)
  then have "followChain ns (nodeLink (ns ! n)) (visited @ [n]) = Some ((visited @ [n]) @ L)"
    by simp
  with Cons.prems show ?case by (subst followChain.simps) simp
qed

subsection \<open>The header chains\<close>

text \<open>
  C8 (chain traversal).  In a tree returned by the constructor, following the node links
  from the chain head of an item visits exactly the nodes other than the root that bear
  the item, each once, in ascending order of address, which is the order in which the
  nodes were created (a new node is allocated at the end of the store).
\<close>

theorem chain_visits_labelled_nodes:
  assumes "FPTree_init ts minSup = Some (Inr t)"
    and "map_of (headerTable t) x = Some (c, chainHead)"
  shows "\<exists>visited. followChain (nodes t) chainHead [] = Some visited
           \<and> visited = filter (\<lambda>i. name (nodes t ! i) = x) [1..<length (nodes t)]
           \<and> distinct visited \<and> sorted visited
           \<and> set visited = {i. 0 < i \<and> i < length (nodes t) \<and> name (nodes t ! i) = x}"
proof -
  from FPTree_init_wf[of ts minSup] assms(1) have "wf_tree t" by auto
  with assms(2) have "chained (nodes t) chainHead (labelled (nodes t) x)"
    unfolding wf_tree_def by blast
  from followChain_chained[OF this, of "[]"]
  have "followChain (nodes t) chainHead [] = Some (labelled (nodes t) x)" by simp
  moreover have "sorted (labelled (nodes t) x)"
    unfolding labelled_def by (rule sorted_wrt_filter) simp
  moreover have "set (labelled (nodes t) x) = {i. 0 < i \<and> i < length (nodes t) \<and> name (nodes t ! i) = x}"
    by (auto simp: labelled_def)
  ultimately show ?thesis by (simp add: labelled_def)
qed

text \<open>The chain of item 8 in the tree of two transactions: the nodes 1 and 4.\<close>

theorem chain_visits_labelled_nodes_witness:
  "FPTree_init [([''8'', ''1''], 1), ([''1'', ''8'', ''9''], 1)] 2 = Some (Inr
     \<lparr>headerTable = [(''8'', 2, Some 1), (''1'', 2, Some 2)],
      nodes =
        [\<lparr>name = ''Null'', count = 1, nodeLink = None, parent = None, children = [(''8'', 1), (''1'', 3)]\<rparr>,
         \<lparr>name = ''8'', count = 1, nodeLink = Some 4, parent = Some 0, children = [(''1'', 2)]\<rparr>,
         \<lparr>name = ''1'', count = 1, nodeLink = Some 3, parent = Some 1, children = []\<rparr>,
         \<lparr>name = ''1'', count = 1, nodeLink = None, parent = Some 0, children = [(''8'', 4)]\<rparr>,
         \<lparr>name = ''8'', count = 1, nodeLink = None, parent = Some 3, children = []\<rparr>]\<rparr>)
   \<and> followChain
        [\<lparr>name = ''Null'', count = 1, nodeLink = None, parent = None, children = [(''8'', 1), (''1'', 3)]\<rparr>,
         \<lparr>name = ''8'', count = 1, nodeLink = Some 4, parent = Some 0, children = [(''1'', 2)]\<rparr>,
         \<lparr>name = ''1'', count = 1, nodeLink = Some 3, parent = Some 1, children = []\<rparr>,
         \<lparr>name = ''1'', count = 1, nodeLink = None, parent = Some 0, children = [(''8'', 4)]\<rparr>,
         \<lparr>name = ''8'', count = 1, nodeLink = None, parent = Some 3, children = []\<rparr>] (Some 1) [] = Some [1, 4]"
proof -
  have b: "FPTree_init [([''8'', ''1''], 1), ([''1'', ''8'', ''9''], 1)] 2 = Some (Inr
     \<lparr>headerTable = [(''8'', 2, Some 1), (''1'', 2, Some 2)],
      nodes =
        [\<lparr>name = ''Null'', count = 1, nodeLink = None, parent = None, children = [(''8'', 1), (''1'', 3)]\<rparr>,
         \<lparr>name = ''8'', count = 1, nodeLink = Some 4, parent = Some 0, children = [(''1'', 2)]\<rparr>,
         \<lparr>name = ''1'', count = 1, nodeLink = Some 3, parent = Some 1, children = []\<rparr>,
         \<lparr>name = ''1'', count = 1, nodeLink = None, parent = Some 0, children = [(''8'', 4)]\<rparr>,
         \<lparr>name = ''8'', count = 1, nodeLink = None, parent = Some 3, children = []\<rparr>]\<rparr>)"
    by code_simp
  from chain_visits_labelled_nodes[OF b, of "''8''" 2 "Some 1"] b
  show ?thesis by (simp add: upt_rec)
qed

subsection \<open>The constructor returns a tree on every input\<close>

text \<open>
  C3 as amended.  The constructor validates nothing: on every table and every threshold,
  also a threshold that is not positive, a count that is not positive and an empty
  item set, it returns a tree and raises no error.
\<close>

theorem construction_never_rejects:
  "\<exists>t. FPTree_init ts minSup = Some (Inr t)"
  using FPTree_init_wf[of ts minSup] by blast

subsection \<open>The header table holds the frequent items\<close>

lemma dict_get_dict_set: "dict_get (dict_set k v d) x dflt = (if x = k then v else dict_get d x dflt)"
  by (simp add: dict_get_def map_of_dict_set)

lemma addCount_fold_map_of:
  "distinct tr \<Longrightarrow>
   map_of (fold (addCount cnt) tr h) x = (if x \<in> set tr then Some (dict_get h x 0 + cnt) else map_of h x)"
proof (induction tr arbitrary: h)
  case Nil
  then show ?case by simp
next
  case (Cons a tr)
  then have "map_of (fold (addCount cnt) tr (addCount cnt a h)) x =
     (if x \<in> set tr then Some (dict_get (addCount cnt a h) x 0 + cnt) else map_of (addCount cnt a h) x)"
    by simp
  moreover have "map_of (addCount cnt a h) = (map_of h)(a \<mapsto> dict_get h a 0 + cnt)"
    by (simp add: addCount_def map_of_dict_set)
  moreover have "dict_get (addCount cnt a h) x 0 = (if x = a then dict_get h a 0 + cnt else dict_get h x 0)"
    by (simp add: addCount_def dict_get_dict_set)
  ultimately show ?case using Cons.prems by auto
qed

lemma addCount_fold_dict_get:
  "distinct tr \<Longrightarrow>
   dict_get (fold (addCount cnt) tr h) x 0 = dict_get h x 0 + (if x \<in> set tr then cnt else 0)"
  by (simp add: dict_get_def addCount_fold_map_of)

lemma countItems_fold_map_of:
  "(\<forall>(k, c) \<in> set ts. distinct k) \<Longrightarrow>
   map_of (fold (\<lambda>(tr, cnt) h. fold (addCount cnt) tr h) ts h) x =
     (if x \<in> vocab ts \<or> map_of h x \<noteq> None then Some (dict_get h x 0 + itemSupport ts x) else None)"
proof (induction ts arbitrary: h)
  case Nil
  then show ?case by (auto simp: vocab_def itemSupport_def dict_get_def)
next
  case (Cons a ts)
  obtain tr cnt where a: "a = (tr, cnt)" by (cases a)
  with Cons.prems have d: "distinct tr" and rest: "\<forall>(k, c) \<in> set ts. distinct k" by auto
  have v: "vocab (a # ts) = set tr \<union> vocab ts" using a by (simp add: vocab_def)
  have s: "itemSupport (a # ts) x = (if x \<in> set tr then cnt else 0) + itemSupport ts x"
    using a by (simp add: itemSupport_def)
  have m: "(map_of (fold (addCount cnt) tr h) x \<noteq> None) = (x \<in> set tr \<or> map_of h x \<noteq> None)"
    using d by (simp add: addCount_fold_map_of)
  from Cons.IH[OF rest, of "fold (addCount cnt) tr h"] a
  show ?case unfolding v s using m addCount_fold_dict_get[OF d, of cnt h x]
    by (simp only: fold_simps comp_def case_prod_conv Un_iff) auto
qed

lemma countItems_map_of:
  "(\<forall>(k, c) \<in> set ts. distinct k) \<Longrightarrow>
   map_of (countItems ts) x = (if x \<in> vocab ts then Some (itemSupport ts x) else None)"
  using countItems_fold_map_of[of ts "[]" x] by (simp add: countItems_def dict_get_def)

lemma itemSupport_absent: "x \<notin> vocab ts \<Longrightarrow> itemSupport ts x = 0"
proof -
  assume "x \<notin> vocab ts"
  then have "filter (\<lambda>(k, c). x \<in> set k) ts = []"
    by (auto simp: vocab_def filter_empty_conv)
  then show ?thesis by (simp add: itemSupport_def)
qed

text \<open>
  C5 (header entries).  The keys of a table are sets, so no key repeats an item.  For a
  positive threshold and any item, and for any threshold and an item that occurs in the
  table, the tree returned has a header entry for the item if and only if the counts of
  the transactions that contain the item sum to at least the threshold.
\<close>

theorem header_entry_iff_frequent:
  assumes keys: "\<forall>(k, c) \<in> set ts. distinct k"
    and dom: "0 < minSup \<or> x \<in> vocab ts"
  shows "\<exists>t. FPTree_init ts minSup = Some (Inr t)
           \<and> ((\<exists>e. map_of (headerTable t) x = Some e) \<longleftrightarrow> minSup \<le> itemSupport ts x)"
proof -
  from FPTree_init_wf[of ts minSup] obtain t where
    t: "FPTree_init ts minSup = Some (Inr t)"
    and k: "map fst (headerTable t) = map fst (filter (\<lambda>(k, v). \<not> v < minSup) (countItems ts))"
    by blast
  have "(\<exists>e. map_of (headerTable t) x = Some e) \<longleftrightarrow> x \<in> set (map fst (headerTable t))"
    by (metis map_of_eq_None_iff not_None_eq list.set_map)
  also have "\<dots> \<longleftrightarrow> (\<exists>v. (x, v) \<in> set (countItems ts) \<and> \<not> v < minSup)"
    unfolding k by force
  also have "\<dots> \<longleftrightarrow> (\<exists>v. map_of (countItems ts) x = Some v \<and> \<not> v < minSup)"
    using countItems_distinct[of ts] by simp
  also have "\<dots> \<longleftrightarrow> (x \<in> vocab ts \<and> minSup \<le> itemSupport ts x)"
    using keys by (auto simp: countItems_map_of)
  also have "\<dots> \<longleftrightarrow> minSup \<le> itemSupport ts x"
  proof (cases "x \<in> vocab ts")
    case True
    then show ?thesis by simp
  next
    case False
    then have "itemSupport ts x = 0" by (rule itemSupport_absent)
    with False dom show ?thesis by simp
  qed
  finally show ?thesis using t by blast
qed

text \<open>Item 1 in a table where its counts sum to 3, at threshold 3.\<close>

theorem header_entry_iff_frequent_witness:
  "distinct [''1'', ''2''] \<and> distinct [''1''] \<and> (0 :: int) < 3
   \<and> (\<exists>t. FPTree_init [([''1'', ''2''], 2), ([''1''], 1)] 3 = Some (Inr t)
           \<and> (\<exists>e. map_of (headerTable t) ''1'' = Some e))
   \<and> 3 \<le> itemSupport [([''1'', ''2''], 2), ([''1''], 1)] ''1''"
proof -
  have s: "itemSupport [([''1'', ''2''], 2), ([''1''], 1)] ''1'' = 3"
    by (simp add: itemSupport_def)
  from header_entry_iff_frequent[of "[([''1'', ''2''], 2), ([''1''], 1)]" 3 "''1''"] s
  show ?thesis by auto
qed

subsection \<open>Conditional pattern bases\<close>

lemma rtrancl_parent_step:
  assumes "parent (ns ! i) = Some p"
  shows "(i, j) \<in> (parentRel ns)\<^sup>* \<longleftrightarrow> j = i \<or> (p, j) \<in> (parentRel ns)\<^sup>*"
proof
  assume "(i, j) \<in> (parentRel ns)\<^sup>*"
  then show "j = i \<or> (p, j) \<in> (parentRel ns)\<^sup>*"
  proof (cases rule: converse_rtranclE)
    case base
    then show ?thesis by simp
  next
    case (step q)
    with assms have "q = p" by (simp add: parentRel_def)
    with step show ?thesis by simp
  qed
next
  assume "j = i \<or> (p, j) \<in> (parentRel ns)\<^sup>*"
  moreover have "(i, p) \<in> parentRel ns" using assms by (simp add: parentRel_def)
  ultimately show "(i, j) \<in> (parentRel ns)\<^sup>*"
    by (auto intro: converse_rtrancl_into_rtrancl)
qed

lemma rtrancl_parent_root:
  assumes "parent (ns ! i) = None"
  shows "(i, j) \<in> (parentRel ns)\<^sup>* \<longleftrightarrow> j = i"
proof
  assume "(i, j) \<in> (parentRel ns)\<^sup>*"
  then show "j = i"
    by (cases rule: converse_rtranclE) (use assms in \<open>auto simp: parentRel_def\<close>)
qed simp

lemma trancl_parent_step:
  assumes "parent (ns ! i) = Some p"
  shows "(i, j) \<in> (parentRel ns)\<^sup>+ \<longleftrightarrow> (p, j) \<in> (parentRel ns)\<^sup>*"
proof
  assume "(i, j) \<in> (parentRel ns)\<^sup>+"
  then obtain q where "(i, q) \<in> parentRel ns" "(q, j) \<in> (parentRel ns)\<^sup>*"
    by (blast dest: tranclD)
  with assms show "(p, j) \<in> (parentRel ns)\<^sup>*" by (simp add: parentRel_def)
next
  assume "(p, j) \<in> (parentRel ns)\<^sup>*"
  moreover have "(i, p) \<in> parentRel ns" using assms by (simp add: parentRel_def)
  ultimately show "(i, j) \<in> (parentRel ns)\<^sup>+" by (rule rtrancl_into_trancl2[rotated])
qed

lemma trancl_parent_root:
  assumes "parent (ns ! i) = None"
  shows "(i, j) \<notin> (parentRel ns)\<^sup>+"
proof
  assume "(i, j) \<in> (parentRel ns)\<^sup>+"
  then obtain q where "(i, q) \<in> parentRel ns" by (blast dest: tranclD)
  with assms show False by (simp add: parentRel_def)
qed

lemma pathLabels_rtrancl:
  "parents_ok ns \<Longrightarrow> i < length ns \<Longrightarrow>
   set (pathLabels ns i) = {name (ns ! j) | j. (i, j) \<in> (parentRel ns)\<^sup>* \<and> parent (ns ! j) \<noteq> None}"
proof (induction i rule: less_induct)
  case (less i)
  show ?case
  proof (cases "parent (ns ! i)")
    case None
    then show ?thesis by (auto simp: pathLabels_root rtrancl_parent_root)
  next
    case (Some p)
    with less.prems have "i \<noteq> 0" by (auto simp: parents_ok_def)
    with less.prems Some have lt: "p < i" by (auto simp: parents_ok_def)
    with less.prems have "p < length ns" by simp
    from less.IH[OF lt less.prems(1) this]
    have "set (pathLabels ns p) = {name (ns ! j) | j. (p, j) \<in> (parentRel ns)\<^sup>* \<and> parent (ns ! j) \<noteq> None}" .
    with Some lt show ?thesis
      by (auto simp: pathLabels_step rtrancl_parent_step[OF Some])
  qed
qed

lemma ancestorLabels_pathLabels:
  assumes "parents_ok ns" "n < length ns"
  shows "ancestorLabels ns n = set (tl (pathLabels ns n))"
proof (cases "parent (ns ! n)")
  case None
  then show ?thesis by (simp add: ancestorLabels_def pathLabels_root trancl_parent_root)
next
  case (Some p)
  with assms have "n \<noteq> 0" by (auto simp: parents_ok_def)
  with assms Some have lt: "p < n" by (auto simp: parents_ok_def)
  with assms have "p < length ns" by simp
  from pathLabels_rtrancl[OF assms(1) this] Some lt show ?thesis
    by (simp add: ancestorLabels_def pathLabels_step trancl_parent_step[OF Some])
qed

lemma pathLabels_long:
  assumes "parents_ok ns" "n < length ns" "0 < n"
  shows "1 < length (pathLabels ns n) \<longleftrightarrow> parent (ns ! n) \<noteq> Some 0"
proof -
  from assms obtain p where p: "parent (ns ! n) = Some p" "p < n" by (auto simp: parents_ok_def)
  then have pl: "pathLabels ns n = name (ns ! n) # pathLabels ns p" by (simp add: pathLabels_step)
  show ?thesis
  proof (cases "p = 0")
    case True
    with assms have "pathLabels ns p = []" by (simp add: parents_ok_def pathLabels_root)
    with pl p True show ?thesis by simp
  next
    case False
    with assms p obtain q where "parent (ns ! p) = Some q" "q < p" by (auto simp: parents_ok_def)
    then have "pathLabels ns p \<noteq> []" by (simp add: pathLabels_step)
    with pl p False show ?thesis by (cases "pathLabels ns p") auto
  qed
qed

lemma chainLoop_chained:
  "parents_ok ns \<Longrightarrow> chained ns l L \<Longrightarrow> (\<And>n. n \<in> set L \<Longrightarrow> n < length ns) \<Longrightarrow>
   chainLoop frozenset ns l condPats = Some (fold (cpbStep frozenset ns) L condPats)"
proof (induction L arbitrary: l condPats)
  case Nil
  then show ?case by (subst chainLoop.simps) simp
next
  case (Cons n L)
  from Cons.prems have l: "l = Some n" and rest: "chained ns (nodeLink (ns ! n)) L"
    and n: "n < length ns" by auto
  from ascendTree_pathLabels[OF Cons.prems(1) n, of "[]"]
  have a: "ascendTree ns n [] = Some (pathLabels ns n)" by simp
  have "chainLoop frozenset ns (nodeLink (ns ! n)) (cpbStep frozenset ns n condPats)
          = Some (fold (cpbStep frozenset ns) L (cpbStep frozenset ns n condPats))"
    using Cons.prems by (intro Cons.IH[OF Cons.prems(1) rest]) auto
  with l a show ?case by (subst chainLoop.simps) (simp add: cpbStep_def)
qed

lemma fdict_set_keys: "set ` fst ` set (fdict_set k v d) = insert (set k) (set ` fst ` set d)"
proof (induction d)
  case Nil
  then show ?case by simp
next
  case (Cons a d)
  obtain k' v' where a: "a = (k', v')" by (cases a)
  show ?case
  proof (cases "set k' = set k")
    case True
    with a show ?thesis by simp
  next
    case False
    with a Cons.IH show ?thesis by (simp add: insert_commute)
  qed
qed

lemma fdict_set_entry:
  "(k', w) \<in> set (fdict_set k v d) \<Longrightarrow> (k', w) \<in> set d \<or> (set k' = set k \<and> w = v)"
  by (induction d) (auto split: if_splits)

lemma cpb_fold_keys:
  assumes fs: "\<And>xs. set (frozenset xs) = set xs"
  shows "set ` fst ` set (fold (cpbStep frozenset ns) L condPats) =
     set ` fst ` set condPats \<union> {set (tl (pathLabels ns n)) | n. n \<in> set L \<and> 1 < length (pathLabels ns n)}"
proof (induction L arbitrary: condPats)
  case Nil
  then show ?case by simp
next
  case (Cons n L)
  have "set ` fst ` set (cpbStep frozenset ns n condPats) =
     set ` fst ` set condPats \<union> (if 1 < length (pathLabels ns n) then {set (tl (pathLabels ns n))} else {})"
    by (simp add: cpbStep_def fdict_set_keys fs)
  with Cons.IH[of "cpbStep frozenset ns n condPats"] show ?case by auto
qed

lemma cpb_fold_entries:
  assumes fs: "\<And>xs. set (frozenset xs) = set xs"
  shows "(k, w) \<in> set (fold (cpbStep frozenset ns) L condPats) \<Longrightarrow>
     (k, w) \<in> set condPats \<or>
     (\<exists>n. n \<in> set L \<and> 1 < length (pathLabels ns n) \<and> set k = set (tl (pathLabels ns n)) \<and> w = count (ns ! n))"
proof (induction L arbitrary: condPats)
  case Nil
  then show ?case by simp
next
  case (Cons n L)
  from Cons.prems have "(k, w) \<in> set (fold (cpbStep frozenset ns) L (cpbStep frozenset ns n condPats))"
    by simp
  from Cons.IH[OF this] show ?case
  proof
    assume "(k, w) \<in> set (cpbStep frozenset ns n condPats)"
    then show ?thesis
      by (auto simp: cpbStep_def fs split: if_splits dest!: fdict_set_entry)
  next
    assume "\<exists>m. m \<in> set L \<and> 1 < length (pathLabels ns m) \<and> set k = set (tl (pathLabels ns m)) \<and> w = count (ns ! m)"
    then show ?thesis by auto
  qed
qed

lemma findPrefixPath_wf:
  assumes wf: "wf_tree t" and ent: "map_of (headerTable t) basePat = Some (c, l)"
  shows "findPrefixPath frozenset t basePat
           = Some (Inr (fold (cpbStep frozenset (nodes t)) (labelled (nodes t) basePat) []))"
proof -
  from wf ent have ch: "chained (nodes t) l (labelled (nodes t) basePat)"
    unfolding wf_tree_def by blast
  from wf have po: "parents_ok (nodes t)" by (simp add: wf_tree_def)
  have "chainLoop frozenset (nodes t) l [] = Some (fold (cpbStep frozenset (nodes t)) (labelled (nodes t) basePat) [])"
    by (rule chainLoop_chained[OF po ch]) (simp add: labelled_def)
  with ent show ?thesis by (simp add: findPrefixPath_def)
qed

text \<open>
  C7 (what a conditional pattern base holds).  In a tree returned by the constructor, for
  an item with a header entry, \<^verbatim>\<open>findPrefixPath\<close> returns; every entry of its result is, as a
  set, the items of the proper ancestors of a chain node, the root left out, it is not
  empty, and its weight is the count of that node; every chain node whose parent is not
  the root has its ancestor set among the keys; and a chain node whose parent is the root
  has no ancestor item, so that no key stands for it.
\<close>

theorem conditional_pattern_base_entries:
  assumes built: "FPTree_init ts minSup = Some (Inr t)"
    and ent: "map_of (headerTable t) basePat = Some (c, chainHead)"
    and fs: "\<And>xs. set (frozenset xs) = set xs"
  shows "\<exists>condPats visited.
           findPrefixPath frozenset t basePat = Some (Inr condPats)
           \<and> followChain (nodes t) chainHead [] = Some visited
           \<and> (\<forall>(k, w) \<in> set condPats. \<exists>n. n \<in> set visited \<and> parent (nodes t ! n) \<noteq> Some 0
                  \<and> set k = ancestorLabels (nodes t) n \<and> set k \<noteq> {} \<and> w = count (nodes t ! n))
           \<and> (\<forall>n \<in> set visited. parent (nodes t ! n) \<noteq> Some 0 \<longrightarrow>
                  ancestorLabels (nodes t) n \<in> set ` fst ` set condPats)
           \<and> (\<forall>n \<in> set visited. parent (nodes t ! n) = Some 0 \<longrightarrow> ancestorLabels (nodes t) n = {})"
proof -
  let ?ns = "nodes t"
  let ?L = "labelled ?ns basePat"
  let ?cp = "fold (cpbStep frozenset ?ns) ?L []"
  from FPTree_init_wf[of ts minSup] built have wf: "wf_tree t" by auto
  then have po: "parents_ok ?ns" by (simp add: wf_tree_def)
  from wf ent have ch: "chained ?ns chainHead ?L" unfolding wf_tree_def by blast
  have fp: "findPrefixPath frozenset t basePat = Some (Inr ?cp)"
    using wf ent by (rule findPrefixPath_wf)
  have fc: "followChain ?ns chainHead [] = Some ?L"
    using followChain_chained[OF ch, of "[]"] by simp
  have node: "0 < n \<and> n < length ?ns" if "n \<in> set ?L" for n
    using that by (auto simp: labelled_def)
  have anc: "ancestorLabels ?ns n = set (tl (pathLabels ?ns n))" if "n \<in> set ?L" for n
    using node[OF that] po by (simp add: ancestorLabels_pathLabels)
  have long: "1 < length (pathLabels ?ns n) \<longleftrightarrow> parent (?ns ! n) \<noteq> Some 0" if "n \<in> set ?L" for n
    using node[OF that] po pathLabels_long[of ?ns n] by blast
  have A: "\<exists>n. n \<in> set ?L \<and> parent (?ns ! n) \<noteq> Some 0
              \<and> set k = ancestorLabels ?ns n \<and> set k \<noteq> {} \<and> w = count (?ns ! n)"
    if "(k, w) \<in> set ?cp" for k w
  proof -
    from cpb_fold_entries[OF fs that] obtain n where n: "n \<in> set ?L" "1 < length (pathLabels ?ns n)"
      "set k = set (tl (pathLabels ?ns n))" "w = count (?ns ! n)" by auto
    from n(2) have "tl (pathLabels ?ns n) \<noteq> []" by (cases "pathLabels ?ns n") auto
    with n anc[OF n(1)] long[OF n(1)] show ?thesis by auto
  qed
  have B: "ancestorLabels ?ns n \<in> set ` fst ` set ?cp"
    if "n \<in> set ?L" "parent (?ns ! n) \<noteq> Some 0" for n
    using that anc[OF that(1)] long[OF that(1)] unfolding cpb_fold_keys[OF fs] by auto
  have C: "ancestorLabels ?ns n = {}" if "n \<in> set ?L" "parent (?ns ! n) = Some 0" for n
  proof -
    from that long[OF that(1)] have "\<not> 1 < length (pathLabels ?ns n)" by simp
    then have "tl (pathLabels ?ns n) = []" by (cases "pathLabels ?ns n") auto
    with anc[OF that(1)] show ?thesis by simp
  qed
  show ?thesis
    using fp fc A B C by (intro exI[of _ ?cp] exI[of _ ?L]) blast
qed

text \<open>The tree of one transaction of the items 1 and 2, and the pattern base of item 2.\<close>

theorem conditional_pattern_base_entries_witness:
  "FPTree_init [([''1'', ''2''], 1)] 1 = Some (Inr
     \<lparr>headerTable = [(''1'', 1, Some 1), (''2'', 1, Some 2)],
      nodes =
        [\<lparr>name = ''Null'', count = 1, nodeLink = None, parent = None, children = [(''1'', 1)]\<rparr>,
         \<lparr>name = ''1'', count = 1, nodeLink = None, parent = Some 0, children = [(''2'', 2)]\<rparr>,
         \<lparr>name = ''2'', count = 1, nodeLink = None, parent = Some 1, children = []\<rparr>]\<rparr>)
   \<and> (\<exists>condPats visited.
        findPrefixPath (\<lambda>xs. xs)
          \<lparr>headerTable = [(''1'', 1, Some 1), (''2'', 1, Some 2)],
           nodes =
             [\<lparr>name = ''Null'', count = 1, nodeLink = None, parent = None, children = [(''1'', 1)]\<rparr>,
              \<lparr>name = ''1'', count = 1, nodeLink = None, parent = Some 0, children = [(''2'', 2)]\<rparr>,
              \<lparr>name = ''2'', count = 1, nodeLink = None, parent = Some 1, children = []\<rparr>]\<rparr> ''2''
          = Some (Inr condPats)
        \<and> followChain
             [\<lparr>name = ''Null'', count = 1, nodeLink = None, parent = None, children = [(''1'', 1)]\<rparr>,
              \<lparr>name = ''1'', count = 1, nodeLink = None, parent = Some 0, children = [(''2'', 2)]\<rparr>,
              \<lparr>name = ''2'', count = 1, nodeLink = None, parent = Some 1, children = []\<rparr>] (Some 2) []
          = Some visited)"
proof -
  have b: "FPTree_init [([''1'', ''2''], 1)] 1 = Some (Inr
     \<lparr>headerTable = [(''1'', 1, Some 1), (''2'', 1, Some 2)],
      nodes =
        [\<lparr>name = ''Null'', count = 1, nodeLink = None, parent = None, children = [(''1'', 1)]\<rparr>,
         \<lparr>name = ''1'', count = 1, nodeLink = None, parent = Some 0, children = [(''2'', 2)]\<rparr>,
         \<lparr>name = ''2'', count = 1, nodeLink = None, parent = Some 1, children = []\<rparr>]\<rparr>)"
    by code_simp
  have e: "map_of (headerTable
     \<lparr>headerTable = [(''1'', 1, Some 1), (''2'', 1, Some 2)],
      nodes =
        [\<lparr>name = ''Null'', count = 1, nodeLink = None, parent = None, children = [(''1'', 1)]\<rparr>,
         \<lparr>name = ''1'', count = 1, nodeLink = None, parent = Some 0, children = [(''2'', 2)]\<rparr>,
         \<lparr>name = ''2'', count = 1, nodeLink = None, parent = Some 1, children = []\<rparr>]\<rparr>) ''2''
       = Some (1, Some 2)"
    by simp
  from conditional_pattern_base_entries[OF b e, of "\<lambda>xs. xs"] b
  show ?thesis by (simp only: FPTree.simps) blast
qed

subsection \<open>Termination of the mining driver\<close>

lemma addCount_fold_keys: "fst ` set (fold (addCount cnt) tr h) = fst ` set h \<union> set tr"
proof (induction tr arbitrary: h)
  case Nil
  then show ?case by simp
next
  case (Cons a tr)
  have "set (map fst (addCount cnt a h)) = insert a (fst ` set h)"
    unfolding addCount_def map_fst_dict_set by auto
  then have "fst ` set (addCount cnt a h) = insert a (fst ` set h)" by simp
  with Cons.IH[of "addCount cnt a h"] show ?case by auto
qed

lemma countItems_fold_keys:
  "fst ` set (fold (\<lambda>(tr, cnt) h. fold (addCount cnt) tr h) ts h) = fst ` set h \<union> vocab ts"
proof (induction ts arbitrary: h)
  case Nil
  then show ?case by (simp add: vocab_def)
next
  case (Cons a ts)
  obtain tr cnt where a: "a = (tr, cnt)" by (cases a)
  have "vocab (a # ts) = set tr \<union> vocab ts" using a by (simp add: vocab_def)
  with Cons.IH[of "fold (addCount cnt) tr h"] a show ?case
    by (simp add: addCount_fold_keys Un_assoc)
qed

lemma countItems_keys: "fst ` set (countItems ts) = vocab ts"
  using countItems_fold_keys[of ts "[]"] by (simp add: countItems_def)

lemma FPTree_init_keys:
  assumes "FPTree_init ts minSup = Some (Inr t)"
  shows "fst ` set (headerTable t) \<subseteq> vocab ts"
proof -
  from FPTree_init_wf[of ts minSup] assms
  have "map fst (headerTable t) = map fst (filter (\<lambda>(k, v). \<not> v < minSup) (countItems ts))" by auto
  then have "set (map fst (headerTable t)) = set (map fst (filter (\<lambda>(k, v). \<not> v < minSup) (countItems ts)))"
    by simp
  then have "fst ` set (headerTable t) \<subseteq> fst ` set (countItems ts)" by auto
  then show ?thesis by (simp add: countItems_keys)
qed

lemma pathLabels_in_keys:
  assumes wf: "wf_tree t"
  shows "i < length (nodes t) \<Longrightarrow> set (pathLabels (nodes t) i) \<subseteq> fst ` set (headerTable t)"
proof (induction i rule: less_induct)
  case (less i)
  from wf have po: "parents_ok (nodes t)"
    and nk: "\<And>i. 0 < i \<Longrightarrow> i < length (nodes t) \<Longrightarrow> name (nodes t ! i) \<in> fst ` set (headerTable t)"
    by (auto simp: wf_tree_def)
  show ?case
  proof (cases "i = 0")
    case True
    with po show ?thesis by (simp add: parents_ok_def pathLabels_root)
  next
    case False
    with po less.prems obtain p where p: "parent (nodes t ! i) = Some p" "p < i"
      by (auto simp: parents_ok_def)
    with less.prems have "set (pathLabels (nodes t) p) \<subseteq> fst ` set (headerTable t)"
      by (intro less.IH) auto
    with p nk[of i] False less.prems show ?thesis by (simp add: pathLabels_step)
  qed
qed

lemma cpb_vocab:
  assumes wf: "wf_tree t" and fs: "\<And>xs. set (frozenset xs) = set xs"
  shows "vocab (fold (cpbStep frozenset (nodes t)) (labelled (nodes t) basePat) [])
           \<subseteq> fst ` set (headerTable t) - {basePat}"
proof
  let ?ns = "nodes t"
  fix x assume "x \<in> vocab (fold (cpbStep frozenset ?ns) (labelled ?ns basePat) [])"
  then obtain S where "S \<in> set ` fst ` set (fold (cpbStep frozenset ?ns) (labelled ?ns basePat) [])" "x \<in> S"
    by (auto simp: vocab_def)
  then obtain n where n: "n \<in> set (labelled ?ns basePat)" "x \<in> set (tl (pathLabels ?ns n))"
    unfolding cpb_fold_keys[OF fs] by auto
  then have nn: "0 < n" "n < length ?ns" "name (?ns ! n) = basePat" by (auto simp: labelled_def)
  from wf have po: "parents_ok ?ns" and dp: "distinct (pathLabels ?ns n)"
    using nn by (auto simp: wf_tree_def)
  from po nn obtain p where p: "parent (?ns ! n) = Some p" "p < n" by (auto simp: parents_ok_def)
  then have pl: "pathLabels ?ns n = basePat # pathLabels ?ns p" using nn by (simp add: pathLabels_step)
  with dp n have "x \<noteq> basePat" by auto
  moreover have "x \<in> fst ` set (headerTable t)"
    using pathLabels_in_keys[OF wf nn(2)] n(2) pl by auto
  ultimately show "x \<in> fst ` set (headerTable t) - {basePat}" by simp
qed

lemma mineLoop_step:
  assumes "findPrefixPath frozenset t basePat = Some (Inr condPattBases)"
    and "FPTree_init condPattBases minSup = Some (Inr myCondTree)"
  shows "mineLoop frozenset d t minSup preFix (basePat # rest) (sets, freqItemList) =
     (if headerTable myCondTree \<noteq> [] then
        (case d of
           0 \<Rightarrow> None
         | Suc d' \<Rightarrow>
            (case mineLoop frozenset d' myCondTree minSup (length sets) (bigL_of myCondTree)
                    (sets @ [insert basePat (sets ! preFix)], freqItemList @ [length sets]) of
               None \<Rightarrow> None
             | Some (Inl e) \<Rightarrow> Some (Inl e)
             | Some (Inr st') \<Rightarrow> mineLoop frozenset d t minSup preFix rest st'))
      else mineLoop frozenset d t minSup preFix rest
             (sets @ [insert basePat (sets ! preFix)], freqItemList @ [length sets]))"
  using assms by (cases d) (auto simp: Let_def split: option.splits sum.splits)

lemma mineLoop_returns:
  assumes fs: "\<And>xs. set (frozenset xs) = set xs"
  shows "wf_tree t \<Longrightarrow> card (fst ` set (headerTable t)) \<le> Suc d \<Longrightarrow>
         set rest \<subseteq> fst ` set (headerTable t) \<Longrightarrow>
         \<exists>st'. mineLoop frozenset d t minSup preFix rest st = Some (Inr st')"
proof (induction d arbitrary: t rest st preFix rule: less_induct)
  case (less d)
  from less.prems show ?case
  proof (induction rest arbitrary: st)
    case Nil
    then show ?case by simp
  next
    case (Cons b rest)
    obtain sets acc where st: "st = (sets, acc)" by (cases st)
    let ?ns = "nodes t"
    let ?cp = "fold (cpbStep frozenset ?ns) (labelled ?ns b) []"
    from Cons.prems have "b \<in> fst ` set (headerTable t)" by simp
    then obtain c l where ent: "map_of (headerTable t) b = Some (c, l)"
      by (cases "map_of (headerTable t) b") (auto simp: map_of_eq_None_iff)
    have fp: "findPrefixPath frozenset t b = Some (Inr ?cp)"
      using Cons.prems(1) ent by (rule findPrefixPath_wf)
    from FPTree_init_wf[of ?cp minSup] obtain ct where
      ct: "FPTree_init ?cp minSup = Some (Inr ct)" and wfc: "wf_tree ct" by blast
    have sub: "fst ` set (headerTable ct) \<subseteq> fst ` set (headerTable t) - {b}"
      using FPTree_init_keys[OF ct] cpb_vocab[OF Cons.prems(1) fs, of b] by blast
    have rest': "set rest \<subseteq> fst ` set (headerTable t)" using Cons.prems by simp
    note step = mineLoop_step[OF fp ct, of d preFix rest sets acc]
    show ?case
    proof (cases "headerTable ct = []")
      case True
      with step st Cons.IH[OF Cons.prems(1,2) rest'] show ?thesis by simp
    next
      case False
      have fin: "finite (fst ` set (headerTable t))" by simp
      have "fst ` set (headerTable t) - {b} \<subset> fst ` set (headerTable t)"
        using \<open>b \<in> fst ` set (headerTable t)\<close> by blast
      with sub have "fst ` set (headerTable ct) \<subset> fst ` set (headerTable t)" by blast
      from psubset_card_mono[OF fin this] Cons.prems(2)
      have cd: "card (fst ` set (headerTable ct)) \<le> d" by simp
      from False have "fst ` set (headerTable ct) \<noteq> {}" by simp
      then have "0 < card (fst ` set (headerTable ct))" by (simp add: card_gt_0_iff)
      with cd obtain d' where d: "d = Suc d'" by (cases d) auto
      have "\<exists>st1. mineLoop frozenset d' ct minSup (length sets) (bigL_of ct)
                (sets @ [insert b (sets ! preFix)], acc @ [length sets]) = Some (Inr st1)"
      proof (rule less.IH)
        show "d' < d" using d by simp
        show "wf_tree ct" by (rule wfc)
        show "card (fst ` set (headerTable ct)) \<le> Suc d'" using cd d by simp
        show "set (bigL_of ct) \<subseteq> fst ` set (headerTable ct)" by (simp add: bigL_of_def)
      qed
      then obtain st1 where inner: "mineLoop frozenset d' ct minSup (length sets) (bigL_of ct)
                (sets @ [insert b (sets ! preFix)], acc @ [length sets]) = Some (Inr st1)" by blast
      from Cons.IH[OF Cons.prems(1,2) rest', of st1] obtain st' where
        "mineLoop frozenset d t minSup preFix rest st1 = Some (Inr st')" by blast
      with step st False d inner show ?thesis by simp
    qed
  qed
qed

text \<open>
  C6 (termination and recursion depth).  The first argument of the driver is the number
  of nested recursive calls it may still make.  For a tree returned by the constructor,
  the driver returns with no more nested calls than there are distinct items in the
  table the tree was built from, whatever the prefix and the accumulator.
\<close>

theorem mining_terminates_within_depth:
  assumes built: "FPTree_init ts minSup = Some (Inr t)"
    and fs: "\<And>xs. set (frozenset xs) = set xs"
  shows "\<exists>st'. mineTree frozenset (card (vocab ts)) t minSup preFix st = Some (Inr st')"
proof -
  from FPTree_init_wf[of ts minSup] built have wf: "wf_tree t" by auto
  have "finite (vocab ts)" by (simp add: vocab_def)
  from card_mono[OF this FPTree_init_keys[OF built]]
  have "card (fst ` set (headerTable t)) \<le> Suc (card (vocab ts))" by simp
  moreover have "set (bigL_of t) \<subseteq> fst ` set (headerTable t)" by (simp add: bigL_of_def)
  ultimately show ?thesis
    unfolding mineTree_def using mineLoop_returns[OF fs wf] by blast
qed

text \<open>The table of one transaction of two items: depth 2 is enough.\<close>

theorem mining_terminates_within_depth_witness:
  "FPTree_init [([''1'', ''2''], 1)] 1 = Some (Inr
     \<lparr>headerTable = [(''1'', 1, Some 1), (''2'', 1, Some 2)],
      nodes =
        [\<lparr>name = ''Null'', count = 1, nodeLink = None, parent = None, children = [(''1'', 1)]\<rparr>,
         \<lparr>name = ''1'', count = 1, nodeLink = None, parent = Some 0, children = [(''2'', 2)]\<rparr>,
         \<lparr>name = ''2'', count = 1, nodeLink = None, parent = Some 1, children = []\<rparr>]\<rparr>)
   \<and> card (vocab [([''1'', ''2''], 1)]) = 2
   \<and> (\<exists>st'. mineTree (\<lambda>xs. xs) 2
        \<lparr>headerTable = [(''1'', 1, Some 1), (''2'', 1, Some 2)],
         nodes =
           [\<lparr>name = ''Null'', count = 1, nodeLink = None, parent = None, children = [(''1'', 1)]\<rparr>,
            \<lparr>name = ''1'', count = 1, nodeLink = None, parent = Some 0, children = [(''2'', 2)]\<rparr>,
            \<lparr>name = ''2'', count = 1, nodeLink = None, parent = Some 1, children = []\<rparr>]\<rparr>
        1 0 ([{}], []) = Some (Inr st'))"
proof -
  have b: "FPTree_init [([''1'', ''2''], 1)] 1 = Some (Inr
     \<lparr>headerTable = [(''1'', 1, Some 1), (''2'', 1, Some 2)],
      nodes =
        [\<lparr>name = ''Null'', count = 1, nodeLink = None, parent = None, children = [(''1'', 1)]\<rparr>,
         \<lparr>name = ''1'', count = 1, nodeLink = None, parent = Some 0, children = [(''2'', 2)]\<rparr>,
         \<lparr>name = ''2'', count = 1, nodeLink = None, parent = Some 1, children = []\<rparr>]\<rparr>)"
    by code_simp
  have c: "card (vocab [([''1'', ''2''], 1)]) = 2" by (simp add: vocab_def)
  from mining_terminates_within_depth[OF b, of "\<lambda>xs. xs" 0 "([{}], [])"] b c
  show ?thesis by simp
qed

subsection \<open>The accumulator\<close>

lemma only_appends_refl: "only_appends p sets acc sets acc"
  by (auto simp: only_appends_def)

lemma only_appends_first:
  "preFix < length sets \<Longrightarrow>
   only_appends preFix sets acc (sets @ [insert b (sets ! preFix)]) (acc @ [length sets])"
proof -
  assume p: "preFix < length sets"
  have "\<exists>b' p'. p' < r \<and> (p' = preFix \<or> length sets \<le> p')
          \<and> (sets @ [insert b (sets ! preFix)]) ! r = insert b' ((sets @ [insert b (sets ! preFix)]) ! p')"
    if "length sets \<le> r" "r < Suc (length sets)" for r
  proof -
    from that have r: "r = length sets" by simp
    show ?thesis
      using p unfolding r by (intro exI[of _ b] exI[of _ preFix]) (simp add: nth_append)
  qed
  then show ?thesis by (simp add: only_appends_def)
qed

lemma only_appends_compose:
  assumes a: "only_appends p s0 a0 s1 a1" and b: "only_appends q s1 a1 s2 a2"
    and q: "q = p \<or> length s0 \<le> q"
  shows "only_appends p s0 a0 s2 a2"
proof -
  from a have a1: "take (length s0) s1 = s0" and a2: "length s0 \<le> length s1"
    and a3: "a1 = a0 @ [length s0..<length s1]"
    and a4: "\<And>r. length s0 \<le> r \<Longrightarrow> r < length s1 \<Longrightarrow>
               \<exists>b p'. p' < r \<and> (p' = p \<or> length s0 \<le> p') \<and> s1 ! r = insert b (s1 ! p')"
    by (auto simp: only_appends_def)
  from b have b1: "take (length s1) s2 = s1" and b2: "length s1 \<le> length s2"
    and b3: "a2 = a1 @ [length s1..<length s2]"
    and b4: "\<And>r. length s1 \<le> r \<Longrightarrow> r < length s2 \<Longrightarrow>
               \<exists>b p'. p' < r \<and> (p' = q \<or> length s1 \<le> p') \<and> s2 ! r = insert b (s2 ! p')"
    by (auto simp: only_appends_def)
  have old: "s2 ! i = s1 ! i" if "i < length s1" for i
    using that b1 by (metis nth_take)
  have "take (length s0) s2 = take (length s0) (take (length s1) s2)"
    using a2 by (simp add: min_def)
  then have c1: "take (length s0) s2 = s0" using a1 b1 by simp
  have c2: "length s0 \<le> length s2" using a2 b2 by simp
  have "[length s0..<length s2] = [length s0..<length s1] @ [length s1..<length s2]"
    using a2 b2 by (metis le_Suc_ex upt_add_eq_append)
  then have c3: "a2 = a0 @ [length s0..<length s2]" using a3 b3 by simp
  have c4: "\<exists>b p'. p' < r \<and> (p' = p \<or> length s0 \<le> p') \<and> s2 ! r = insert b (s2 ! p')"
    if r: "length s0 \<le> r" "r < length s2" for r
  proof (cases "r < length s1")
    case True
    from a4[OF r(1) True] obtain b' p' where
      p': "p' < r" "p' = p \<or> length s0 \<le> p'" "s1 ! r = insert b' (s1 ! p')" by blast
    with True have "s2 ! r = insert b' (s2 ! p')" by (simp add: old)
    with p' show ?thesis by blast
  next
    case False
    then have "length s1 \<le> r" by simp
    from b4[OF this r(2)] obtain b' p' where
      p': "p' < r" "p' = q \<or> length s1 \<le> p'" "s2 ! r = insert b' (s2 ! p')" by blast
    from p'(2) q a2 have "p' = p \<or> length s0 \<le> p'" by auto
    with p' show ?thesis by blast
  qed
  show ?thesis unfolding only_appends_def using c1 c2 c3 c4 by blast
qed

lemma mineLoop_only_appends:
  "mineLoop frozenset d t minSup preFix rest st = Some (Inr st') \<Longrightarrow> preFix < length (fst st) \<Longrightarrow>
   only_appends preFix (fst st) (snd st) (fst st') (snd st')"
proof (induction frozenset d t minSup preFix rest st arbitrary: st' rule: mineLoop.induct)
  case (1 frozenset d t minSup preFix st)
  then show ?case by (simp add: only_appends_refl)
next
  case (2 frozenset d t minSup preFix basePat rest sets freqItemList)
  let ?s2 = "sets @ [insert basePat (sets ! preFix)]"
  let ?a1 = "freqItemList @ [length sets]"
  let ?xa = "sets @ [sets ! preFix]"
  let ?xb = "?xa[length sets := insert basePat (?xa ! length sets)]"
  have xb: "?xb = ?s2" by simp
  from "2.prems" have pf: "preFix < length sets" by simp
  have first: "only_appends preFix sets freqItemList ?s2 ?a1"
    using pf by (rule only_appends_first)
  from "2.prems"(1) obtain cp where fp: "findPrefixPath frozenset t basePat = Some (Inr cp)"
    by (auto simp: Let_def split: option.splits sum.splits)
  from "2.prems"(1) fp obtain ct where ct: "FPTree_init cp minSup = Some (Inr ct)"
    by (auto simp: Let_def split: option.splits sum.splits)
  note step = mineLoop_step[OF fp ct, of d preFix rest sets freqItemList]
  show ?case
  proof (cases "headerTable ct = []")
    case True
    with step "2.prems"(1) have r: "mineLoop frozenset d t minSup preFix rest (?s2, ?a1) = Some (Inr st')"
      by simp
    have ne: "\<not> headerTable ct \<noteq> []" using True by simp
    have "only_appends preFix (fst (?xb, ?a1)) (snd (?xb, ?a1)) (fst st') (snd st')"
      by (rule "2.IH"(3)[OF refl refl refl refl fp refl ct refl ne]) (use r pf in \<open>simp_all\<close>)
    then have "only_appends preFix ?s2 ?a1 (fst st') (snd st')" by (simp only: xb fst_conv snd_conv)
    from only_appends_compose[OF first this] show ?thesis by simp
  next
    case False
    with step "2.prems"(1) obtain d' where d: "d = Suc d'"
      by (cases d) auto
    from step "2.prems"(1) False d obtain st1 where
      inner: "mineLoop frozenset d' ct minSup (length sets) (bigL_of ct) (?s2, ?a1) = Some (Inr st1)"
      and outer: "mineLoop frozenset d t minSup preFix rest st1 = Some (Inr st')"
      by (auto split: option.splits sum.splits)
    have "only_appends (length sets) (fst (?xb, ?a1)) (snd (?xb, ?a1)) (fst st1) (snd st1)"
      by (rule "2.IH"(1)[OF refl refl refl refl fp refl ct refl False d]) (use inner in \<open>simp_all\<close>)
    then have in_fr: "only_appends (length sets) ?s2 ?a1 (fst st1) (snd st1)"
      by (simp only: xb fst_conv snd_conv)
    from only_appends_compose[OF first in_fr] have upto1: "only_appends preFix sets freqItemList (fst st1) (snd st1)"
      by simp
    then have "length sets \<le> length (fst st1)" by (simp add: only_appends_def)
    with pf have pf1: "preFix < length (fst st1)" by simp
    have inner': "mineLoop frozenset d' ct minSup (length sets) (bigL_of ct) (?xb, ?a1) = Some (Inr st1)"
      using inner by (simp only: xb)
    have "only_appends preFix (fst st1) (snd st1) (fst st') (snd st')"
      by (rule "2.IH"(2)[OF refl refl refl refl fp refl ct refl False d inner' refl outer pf1])
    from only_appends_compose[OF upto1 this] show ?thesis by simp
  qed
qed

text \<open>
  C9 (the accumulator is append-only and what it holds is never modified).  The sets are
  objects in a store and the accumulator holds their addresses.  Whenever the driver
  returns, from any tree, prefix, remaining items and state: every set object that
  existed before the call is unchanged, so in particular the item sets the accumulator
  referred to and the prefix; the accumulator is the old one followed by the addresses
  of the sets allocated during the call, each once; and each of these sets is the
  prefix, or a set allocated earlier in the call, with one item inserted.
\<close>

theorem accumulator_only_appended:
  assumes run: "mineLoop frozenset d t minSup preFix rest (sets, freqItemList) = Some (Inr (sets', freqItemList'))"
    and pf: "preFix < length sets"
    and refs: "\<forall>r \<in> set freqItemList. r < length sets"
  shows "take (length sets) sets' = sets
       \<and> freqItemList' = freqItemList @ [length sets..<length sets']
       \<and> take (length freqItemList) (emitted (sets', freqItemList')) = emitted (sets, freqItemList)
       \<and> (\<forall>r \<in> set [length sets..<length sets']. \<exists>b p. p < r \<and> (p = preFix \<or> length sets \<le> p)
              \<and> sets' ! r = insert b (sets' ! p))"
proof -
  from mineLoop_only_appends[OF run] pf
  have fr: "only_appends preFix sets freqItemList sets' freqItemList'" by simp
  then have t: "take (length sets) sets' = sets" and a: "freqItemList' = freqItemList @ [length sets..<length sets']"
    and n: "\<forall>r. length sets \<le> r \<and> r < length sets' \<longrightarrow>
        (\<exists>b p. p < r \<and> (p = preFix \<or> length sets \<le> p) \<and> sets' ! r = insert b (sets' ! p))"
    by (simp_all add: only_appends_def)
  have "sets' ! r = sets ! r" if "r \<in> set freqItemList" for r
    using that refs t by (metis nth_take)
  then have "map (\<lambda>r. sets' ! r) freqItemList = map (\<lambda>r. sets ! r) freqItemList" by simp
  then have "take (length freqItemList) (emitted (sets', freqItemList')) = emitted (sets, freqItemList)"
    by (simp add: emitted_def a)
  with t a n show ?thesis by simp
qed

text \<open>The run of \<^verbatim>\<open>main\<close> on one transaction of the items 1 and 2.\<close>

theorem accumulator_only_appended_witness:
  "mineLoop (\<lambda>xs. xs) 2
     \<lparr>headerTable = [(''1'', 1, Some 1), (''2'', 1, Some 2)],
      nodes =
        [\<lparr>name = ''Null'', count = 1, nodeLink = None, parent = None, children = [(''1'', 1)]\<rparr>,
         \<lparr>name = ''1'', count = 1, nodeLink = None, parent = Some 0, children = [(''2'', 2)]\<rparr>,
         \<lparr>name = ''2'', count = 1, nodeLink = None, parent = Some 1, children = []\<rparr>]\<rparr>
     1 0 [''1'', ''2''] ([{}], [])
     = Some (Inr ([{}, {''1''}, {''2''}, {''1'', ''2''}], [1, 2, 3]))
   \<and> (0 :: nat) < length [{} :: string set]
   \<and> take (length [{} :: string set]) [{}, {''1''}, {''2''}, {''1'', ''2''}] = [{}]
   \<and> [1, 2, 3] = [] @ [length [{} :: string set]..<length [{}, {''1''}, {''2''}, {''1'', ''2''}]]"
proof -
  have run: "mineLoop (\<lambda>xs. xs) 2
     \<lparr>headerTable = [(''1'', 1, Some 1), (''2'', 1, Some 2)],
      nodes =
        [\<lparr>name = ''Null'', count = 1, nodeLink = None, parent = None, children = [(''1'', 1)]\<rparr>,
         \<lparr>name = ''1'', count = 1, nodeLink = None, parent = Some 0, children = [(''2'', 2)]\<rparr>,
         \<lparr>name = ''2'', count = 1, nodeLink = None, parent = Some 1, children = []\<rparr>]\<rparr>
     1 0 [''1'', ''2''] ([{}], [])
     = Some (Inr ([{}, {''1''}, {''2''}, {''1'', ''2''}], [1, 2, 3]))"
    by code_simp
  have pf: "(0 :: nat) < length [{} :: string set]" by simp
  have refs: "\<forall>r \<in> set ([] :: nat list). r < length [{} :: string set]" by simp
  from accumulator_only_appended[OF run pf refs] run pf show ?thesis by simp
qed

subsection \<open>The order of items of equal count\<close>

lemma dict_set_entry:
  "(x, c) \<in> set (dict_set k v d) \<Longrightarrow> (x, c) \<in> set d \<or> (x = k \<and> c = v)"
  by (induction d) (auto split: if_splits)

lemma localD_fold_entries:
  "(\<And>x c. (x, c) \<in> set acc \<Longrightarrow> c = headerCount hdr x) \<Longrightarrow>
   (x, c) \<in> set (fold (\<lambda>item d. case map_of hdr item of Some (c, l) \<Rightarrow> dict_set item c d | None \<Rightarrow> d) tr acc)
   \<Longrightarrow> c = headerCount hdr x"
proof (induction tr arbitrary: acc)
  case Nil
  then show ?case by simp
next
  case (Cons item tr)
  show ?case
  proof (cases "map_of hdr item")
    case None
    show ?thesis
    proof (rule Cons.IH[of acc])
      show "\<And>y k. (y, k) \<in> set acc \<Longrightarrow> k = headerCount hdr y" by (rule Cons.prems(1))
      show "(x, c) \<in> set (fold (\<lambda>item d. case map_of hdr item of Some (c, l) \<Rightarrow> dict_set item c d | None \<Rightarrow> d)
                tr acc)"
        using Cons.prems(2) None by simp
    qed
  next
    case (Some e)
    obtain c' l where e: "e = (c', l)" by (cases e)
    have "c = headerCount hdr x"
    proof (rule Cons.IH[of "dict_set item c' acc"])
      fix y k assume "(y, k) \<in> set (dict_set item c' acc)"
      then have "(y, k) \<in> set acc \<or> (y = item \<and> k = c')" by (rule dict_set_entry)
      then show "k = headerCount hdr y"
        using Cons.prems(1) Some e by (auto simp: headerCount_def)
    next
      show "(x, c) \<in> set (fold (\<lambda>item d. case map_of hdr item of Some (c, l) \<Rightarrow> dict_set item c d | None \<Rightarrow> d)
                tr (dict_set item c' acc))"
        using Cons.prems(2) Some e by simp
    qed
    then show ?thesis .
  qed
qed

lemma localD_of_entries: "(x, c) \<in> set (localD_of hdr tr) \<Longrightarrow> c = headerCount hdr x"
  unfolding localD_of_def by (rule localD_fold_entries[of "[]"]) simp_all

lemma localD_fold_order:
  "distinct tr \<Longrightarrow> set tr \<inter> fst ` set acc = {} \<Longrightarrow>
   map fst (fold (\<lambda>item d. case map_of hdr item of Some (c, l) \<Rightarrow> dict_set item c d | None \<Rightarrow> d) tr acc)
     = map fst acc @ filter (\<lambda>x. map_of hdr x \<noteq> None) tr"
proof (induction tr arbitrary: acc)
  case Nil
  then show ?case by simp
next
  case (Cons item tr)
  show ?case
  proof (cases "map_of hdr item")
    case None
    with Cons.prems Cons.IH[of acc] show ?thesis by simp
  next
    case (Some e)
    obtain c l where e: "e = (c, l)" by (cases e)
    from Cons.prems have nk: "item \<notin> fst ` set acc" by auto
    then have m: "map fst (dict_set item c acc) = map fst acc @ [item]"
      by (simp add: map_fst_dict_set)
    then have "set (map fst (dict_set item c acc)) = insert item (fst ` set acc)" by simp
    then have k: "fst ` set (dict_set item c acc) = insert item (fst ` set acc)" by simp
    have "map fst (fold (\<lambda>item d. case map_of hdr item of Some (c, l) \<Rightarrow> dict_set item c d | None \<Rightarrow> d)
              tr (dict_set item c acc))
            = map fst (dict_set item c acc) @ filter (\<lambda>x. map_of hdr x \<noteq> None) tr"
      using Cons.prems k by (intro Cons.IH) auto
    with Some e m show ?thesis by simp
  qed
qed

lemma localD_of_order:
  "distinct tr \<Longrightarrow> map fst (localD_of hdr tr) = filter (\<lambda>x. map_of hdr x \<noteq> None) tr"
  using localD_fold_order[of tr "[]" hdr] by (simp add: localD_of_def)

lemma sorted_negated:
  fixes f :: "'a \<Rightarrow> int"
  shows "sorted (map (\<lambda>p. - f p) ps) \<Longrightarrow> sorted (rev (map f ps))"
  by (induction ps) (auto simp: sorted_append)

lemma headerCount_entry:
  "distinct (map fst hdr) \<Longrightarrow> p \<in> set hdr \<Longrightarrow> headerCount hdr (fst p) = fst (snd p)"
  by (cases p) (auto simp: headerCount_def)

text \<open>
  C4 as amended.  The sequence emitted is fixed by the table as it iterates: two runs on
  the same table in which every key iterates in the same order emit the same sequence.
  The order of insertion is by descending count and the order of the mining loop by
  ascending count, and there is no secondary key: items of equal count keep the order in
  which the transaction's item set iterates (insertion) and the order in which the
  header table holds them (mining).
\<close>

theorem ties_keep_iteration_order:
  assumes built: "FPTree_init ts minSup = Some (Inr t)" and tr: "distinct tr"
  shows "(same_multiset ts ts' \<and> map fst ts = map fst ts' \<longrightarrow>
            mineAll frozenset d ts minSup = mineAll frozenset d ts' minSup)
       \<and> set (orderedItems_of (localD_of hdr tr)) = {x \<in> set tr. map_of hdr x \<noteq> None}
       \<and> sorted (rev (map (headerCount hdr) (orderedItems_of (localD_of hdr tr))))
       \<and> filter (\<lambda>x. headerCount hdr x = k) (orderedItems_of (localD_of hdr tr))
           = filter (\<lambda>x. headerCount hdr x = k \<and> map_of hdr x \<noteq> None) tr
       \<and> sorted (map (headerCount (headerTable t)) (bigL_of t))
       \<and> filter (\<lambda>x. headerCount (headerTable t) x = k) (bigL_of t)
           = filter (\<lambda>x. headerCount (headerTable t) x = k) (map fst (headerTable t))"
proof -
  let ?d = "localD_of hdr tr"
  let ?ps = "sort_key (\<lambda>p. - snd p) ?d"
  have A: "mineAll frozenset d ts minSup = mineAll frozenset d ts' minSup"
    if "same_multiset ts ts'" "map fst ts = map fst ts'"
  proof -
    from that(1) have "map snd (map (\<lambda>(k, c). (set k, c)) ts) = map snd (map (\<lambda>(k, c). (set k, c)) ts')"
      by (simp add: same_multiset_def)
    then have "map snd ts = map snd ts'" by (simp add: case_prod_beta comp_def)
    with that(2) have "ts = ts'" by (rule pair_list_eqI)
    then show ?thesis by simp
  qed
  have ent: "snd p = headerCount hdr (fst p)" if "p \<in> set ?ps" for p
    using that localD_of_entries[of "fst p" "snd p" hdr tr] by simp
  have B: "set (orderedItems_of ?d) = {x \<in> set tr. map_of hdr x \<noteq> None}"
  proof -
    have "set (orderedItems_of ?d) = set (map fst ?d)" by (simp add: orderedItems_of_def)
    then show ?thesis using localD_of_order[OF tr, of hdr] by simp
  qed
  have ms: "map (headerCount hdr) (orderedItems_of ?d) = map snd ?ps"
    using ent by (simp add: orderedItems_of_def)
  have "sorted (map (\<lambda>p. - snd p) ?ps)" by (rule sorted_sort_key)
  then have "sorted (rev (map snd ?ps))" by (rule sorted_negated)
  then have C: "sorted (rev (map (headerCount hdr) (orderedItems_of ?d)))" by (simp only: ms)
  have "filter (\<lambda>x. headerCount hdr x = k) (orderedItems_of ?d)
          = map fst (filter (\<lambda>p. headerCount hdr (fst p) = k) ?ps)"
    by (simp add: orderedItems_of_def filter_map comp_def)
  also have "filter (\<lambda>p. headerCount hdr (fst p) = k) ?ps = filter (\<lambda>p. - snd p = - k) ?ps"
    using ent by (intro filter_cong) auto
  also have "\<dots> = filter (\<lambda>p. - snd p = - k) ?d" by (rule sort_key_stable)
  also have "\<dots> = filter (\<lambda>p. headerCount hdr (fst p) = k) ?d"
    using localD_of_entries[of _ _ hdr tr] by (intro filter_cong) auto
  also have "map fst \<dots> = filter (\<lambda>x. headerCount hdr x = k) (map fst ?d)"
    by (simp add: filter_map comp_def)
  also have "\<dots> = filter (\<lambda>x. headerCount hdr x = k \<and> map_of hdr x \<noteq> None) tr"
    by (simp add: localD_of_order[OF tr] conj_commute)
  finally have D: "filter (\<lambda>x. headerCount hdr x = k) (orderedItems_of ?d)
          = filter (\<lambda>x. headerCount hdr x = k \<and> map_of hdr x \<noteq> None) tr" .
  let ?h = "headerTable t"
  let ?qs = "sort_key (\<lambda>p. fst (snd p)) ?h"
  from FPTree_init_wf[of ts minSup] built have dk: "distinct (map fst ?h)" by (auto simp: wf_tree_def)
  have hent: "headerCount ?h (fst p) = fst (snd p)" if "p \<in> set ?h" for p
    using dk that by (rule headerCount_entry)
  have mq: "map (headerCount ?h) (bigL_of t) = map (\<lambda>p. fst (snd p)) ?qs"
    using hent by (simp add: bigL_of_def)
  have E: "sorted (map (headerCount ?h) (bigL_of t))"
    unfolding mq by (rule sorted_sort_key)
  have "filter (\<lambda>x. headerCount ?h x = k) (bigL_of t)
          = map fst (filter (\<lambda>p. headerCount ?h (fst p) = k) ?qs)"
    by (simp add: bigL_of_def filter_map comp_def)
  also have "filter (\<lambda>p. headerCount ?h (fst p) = k) ?qs = filter (\<lambda>p. fst (snd p) = k) ?qs"
    using hent by (intro filter_cong) auto
  also have "\<dots> = filter (\<lambda>p. fst (snd p) = k) ?h" by (rule sort_key_stable)
  also have "\<dots> = filter (\<lambda>p. headerCount ?h (fst p) = k) ?h"
    using hent by (intro filter_cong) auto
  also have "map fst \<dots> = filter (\<lambda>x. headerCount ?h x = k) (map fst ?h)"
    by (simp add: filter_map comp_def)
  finally have F: "filter (\<lambda>x. headerCount ?h x = k) (bigL_of t)
          = filter (\<lambda>x. headerCount ?h x = k) (map fst ?h)" .
  from A B C D E F show ?thesis by blast
qed

text \<open>The table of one transaction that iterates as b, a: the items have equal counts and
  are inserted as b, a.\<close>

theorem ties_keep_iteration_order_witness:
  "FPTree_init [([''b'', ''a''], 1)] 1 = Some (Inr
     \<lparr>headerTable = [(''b'', 1, Some 1), (''a'', 1, Some 2)],
      nodes =
        [\<lparr>name = ''Null'', count = 1, nodeLink = None, parent = None, children = [(''b'', 1)]\<rparr>,
         \<lparr>name = ''b'', count = 1, nodeLink = None, parent = Some 0, children = [(''a'', 2)]\<rparr>,
         \<lparr>name = ''a'', count = 1, nodeLink = None, parent = Some 1, children = []\<rparr>]\<rparr>)
   \<and> distinct [''b'', ''a'']
   \<and> orderedItems_of (localD_of [(''b'', 1, Some 1), (''a'', 1, Some 2)] [''b'', ''a'']) = [''b'', ''a'']
   \<and> filter (\<lambda>x. headerCount [(''b'', 1, Some 1), (''a'', 1, Some 2)] x = 1)
        (orderedItems_of (localD_of [(''b'', 1, Some 1), (''a'', 1, Some 2)] [''b'', ''a'']))
       = filter (\<lambda>x. headerCount [(''b'', 1, Some 1), (''a'', 1, Some 2)] x = 1
                   \<and> map_of [(''b'', 1 :: int, Some (1 :: nat)), (''a'', 1, Some 2)] x \<noteq> None) [''b'', ''a'']"
proof -
  have b: "FPTree_init [([''b'', ''a''], 1)] 1 = Some (Inr
     \<lparr>headerTable = [(''b'', 1, Some 1), (''a'', 1, Some 2)],
      nodes =
        [\<lparr>name = ''Null'', count = 1, nodeLink = None, parent = None, children = [(''b'', 1)]\<rparr>,
         \<lparr>name = ''b'', count = 1, nodeLink = None, parent = Some 0, children = [(''a'', 2)]\<rparr>,
         \<lparr>name = ''a'', count = 1, nodeLink = None, parent = Some 1, children = []\<rparr>]\<rparr>)"
    by code_simp
  have d: "distinct [''b'', ''a'']" by simp
  have o: "orderedItems_of (localD_of [(''b'', 1, Some 1), (''a'', 1, Some 2)] [''b'', ''a'']) = [''b'', ''a'']"
    by code_simp
  from ties_keep_iteration_order[OF b d, of "[([''b'', ''a''], 1)]" "\<lambda>xs. xs" 2
      "[(''b'', 1, Some 1), (''a'', 1, Some 2)]" 1] b d o
  show ?thesis by blast
qed

end
